theory Spec2Isabelle
  imports Complex_Main "HOL-Library.Stream" "HOL-Library.Multiset"
begin

section \<open>Python values, exceptions and the random module\<close>

text \<open>
  Exceptions of the Python runtime that the modelled functions can meet. A raise is the
  value \<open>Inl e\<close>, a normal return is \<open>Inr v\<close>. \<open>Empty\<close> is \<open>queue.Empty\<close>.
\<close>

datatype py_error =
  IndexError | ValueError | TypeError | KeyError | AttributeError | OverflowError | Empty

text \<open>
  The module-level generator of \<open>random\<close> is a hidden global state. It is modelled as an
  infinite stream of raw draws that every call consumes from the front; a theorem about
  every stream is a theorem about every behaviour of the generator.
\<close>

type_synonym rng = "nat stream"

definition randbelow :: "nat \<Rightarrow> rng \<Rightarrow> nat \<times> rng" where
  "randbelow n g = (shd g mod n, stl g)"

text \<open>
  \<open>random.random()\<close>: a multiple of \<open>2\<^sup>-\<^sup>5\<^sup>3\<close> in \<open>[0, 1)\<close>. Weights and products
  are exact rationals; the rounding of floating-point arithmetic is left out.
\<close>

definition py_random :: "rng \<Rightarrow> rat \<times> rng" where
  "py_random g = (of_nat (shd g mod 2 ^ 53) / 2 ^ 53, stl g)"

text \<open>\<open>random.uniform(a, b)\<close> is \<open>a + (b - a) * random()\<close>.\<close>

definition py_uniform :: "rat \<Rightarrow> rat \<Rightarrow> rng \<Rightarrow> rat \<times> rng" where
  "py_uniform a b g = (case py_random g of (u, g') \<Rightarrow> (a + (b - a) * u, g'))"

text \<open>\<open>random.randint(a, b)\<close>: \<open>ValueError\<close> on an empty range.\<close>

definition py_randint :: "int \<Rightarrow> int \<Rightarrow> rng \<Rightarrow> py_error + (int \<times> rng)" where
  "py_randint a b g =
     (if b < a then Inl ValueError
      else case randbelow (nat (b - a + 1)) g of (j, g') \<Rightarrow> Inr (a + int j, g'))"

text \<open>\<open>random.choice(seq)\<close>: \<open>IndexError\<close> on an empty sequence.\<close>

definition py_choice :: "'a list \<Rightarrow> rng \<Rightarrow> py_error + ('a \<times> rng)" where
  "py_choice xs g =
     (if xs = [] then Inl IndexError
      else case randbelow (length xs) g of (j, g') \<Rightarrow> Inr (xs ! j, g'))"

text \<open>
  \<open>random.sample(population, k)\<close>: \<open>k\<close> elements at distinct positions, in selection
  order; \<open>ValueError\<close> when the population is smaller than \<open>k\<close>. Each selection takes one
  position of the pool that is left and removes it (CPython fills the gap with the last
  element of the pool instead; the selections that can come out are the same).
\<close>

fun sample_pool :: "'a list \<Rightarrow> nat \<Rightarrow> rng \<Rightarrow> 'a list \<times> rng" where
  "sample_pool pool 0 g = ([], g)"
| "sample_pool pool (Suc k) g =
     (case randbelow (length pool) g of (j, g1) \<Rightarrow>
        (case sample_pool (take j pool @ drop (Suc j) pool) k g1 of (rest, g2) \<Rightarrow>
           (pool ! j # rest, g2)))"

definition py_sample :: "'a list \<Rightarrow> nat \<Rightarrow> rng \<Rightarrow> py_error + ('a list \<times> rng)" where
  "py_sample population k g =
     (if length population < k then Inl ValueError
      else Inr (sample_pool population k g))"

text \<open>
  \<open>random.choices(population, weights, k=k)\<close>: the running sums of the weights, the
  checks on their number and their total, then \<open>k\<close> independent selections, each
  \<open>population[bisect(cum_weights, random() * total, 0, n - 1)]\<close>.
\<close>

fun accumulate :: "rat \<Rightarrow> rat list \<Rightarrow> rat list" where
  "accumulate acc [] = []"
| "accumulate acc (w # ws) = (acc + w) # accumulate (acc + w) ws"

definition bisect :: "rat list \<Rightarrow> rat \<Rightarrow> nat \<Rightarrow> nat" where
  "bisect cum x hi = length (takeWhile (\<lambda>c. c \<le> x) (take hi cum))"

fun choices_picks :: "'a list \<Rightarrow> rat list \<Rightarrow> rat \<Rightarrow> nat \<Rightarrow> rng \<Rightarrow> 'a list \<times> rng" where
  "choices_picks population cum tot 0 g = ([], g)"
| "choices_picks population cum tot (Suc k) g =
     (case py_random g of (u, g1) \<Rightarrow>
        (case choices_picks population cum tot k g1 of (rest, g2) \<Rightarrow>
           (population ! bisect cum (u * tot) (length population - 1) # rest, g2)))"

definition py_choices :: "'a list \<Rightarrow> rat list \<Rightarrow> nat \<Rightarrow> rng \<Rightarrow> py_error + ('a list \<times> rng)" where
  "py_choices population weights k g =
     (let cum = accumulate 0 weights in
      if length cum \<noteq> length population then Inl ValueError
      else if cum = [] then Inl IndexError
      else if last cum \<le> 0 then Inl ValueError
      else Inr (choices_picks population cum (last cum) k g))"

section \<open>MessageQueue\<close>

datatype MessageType =
  FETCH_SUCCESS | FETCH_ERROR | RECOMMEND_SUCCESS | ERROR | PROGRESS_START | PROGRESS_STOP

text \<open>
  The \<open>queue.Queue\<close> held by a \<open>MessageQueue\<close> is the list of its items, oldest first.
  The payload of a message is optional (\<open>data=None\<close>).
\<close>

type_synonym 'd message_queue = "(MessageType \<times> 'd option) list"

definition put :: "'a list \<Rightarrow> 'a \<Rightarrow> 'a list" where
  "put q x = q @ [x]"

definition get_nowait :: "'a list \<Rightarrow> py_error + ('a \<times> 'a list)" where
  "get_nowait q = (case q of [] \<Rightarrow> Inl Empty | x # q' \<Rightarrow> Inr (x, q'))"

definition send :: "'d message_queue \<Rightarrow> MessageType \<Rightarrow> 'd option \<Rightarrow> 'd message_queue" where
  "send q msg_type data = put q (msg_type, data)"

text \<open>
  \<open>receive\<close> returns the pair and the queue it leaves. Only \<open>queue.Empty\<close> is caught;
  any other exception would propagate.
\<close>

definition receive ::
  "'d message_queue \<Rightarrow> py_error + ((MessageType option \<times> 'd option) \<times> 'd message_queue)" where
  "receive q =
     (case get_nowait q of
        Inr ((msg_type, data), q') \<Rightarrow> Inr ((Some msg_type, data), q')
      | Inl e \<Rightarrow> if e = Empty then Inr ((None, None), q) else Inl e)"

fun send_all :: "'d message_queue \<Rightarrow> (MessageType \<times> 'd option) list \<Rightarrow> 'd message_queue" where
  "send_all q [] = q"
| "send_all q ((t, d) # ms) = send_all (send q t d) ms"

section \<open>The values of the cached history\<close>

text \<open>
  The history handed to \<open>parse_numbers\<close> is what \<open>json.load\<close> read from the cache
  file: any value of the JSON data model. A string is the list of its code points, a
  dictionary the list of its items in insertion order (its keys are strings, each
  occurring once), and a float is the rational number it stands for, an infinity or
  a NaN.
\<close>

type_synonym py_str = "nat list"

abbreviation str :: "string \<Rightarrow> py_str" where
  "str s \<equiv> map of_char s"

datatype py_float = Finite rat | Infinite | NaN

datatype py_value =
  PyNone | PyBool bool | PyInt int | PyFloat py_float | PyStr py_str
  | PyList "py_value list" | PyDict "(py_str \<times> py_value) list"

text \<open>The truth value of an object, as \<open>if\<close> and \<open>and\<close> test it.\<close>

fun truthy :: "py_value \<Rightarrow> bool" where
  "truthy PyNone = False"
| "truthy (PyBool b) = b"
| "truthy (PyInt n) = (n \<noteq> 0)"
| "truthy (PyFloat x) = (x \<noteq> Finite 0)"
| "truthy (PyStr s) = (s \<noteq> [])"
| "truthy (PyList xs) = (xs \<noteq> [])"
| "truthy (PyDict kvs) = (kvs \<noteq> [])"

text \<open>
  \<open>for item in v\<close>: the elements of a list, the one-character strings of a string,
  the keys of a dictionary; \<open>TypeError\<close> for a value that is not iterable.
\<close>

definition py_iter :: "py_value \<Rightarrow> py_error + py_value list" where
  "py_iter v =
     (case v of
        PyList xs \<Rightarrow> Inr xs
      | PyStr s \<Rightarrow> Inr (map (\<lambda>c. PyStr [c]) s)
      | PyDict kvs \<Rightarrow> Inr (map (\<lambda>kv. PyStr (fst kv)) kvs)
      | _ \<Rightarrow> Inl TypeError)"

text \<open>
  \<open>key in v\<close> for a string \<open>key\<close>: a key of a dictionary, an element of a list, a
  substring of a string; \<open>TypeError\<close> for \<open>None\<close>, a boolean or a number.
\<close>

fun starts_with :: "'a list \<Rightarrow> 'a list \<Rightarrow> bool" where
  "starts_with s [] = True"
| "starts_with [] (p # ps) = False"
| "starts_with (c # cs) (p # ps) = (c = p \<and> starts_with cs ps)"

fun str_contains :: "'a list \<Rightarrow> 'a list \<Rightarrow> bool" where
  "str_contains [] sub = (sub = [])"
| "str_contains (c # cs) sub = (starts_with (c # cs) sub \<or> str_contains cs sub)"

definition contains :: "py_str \<Rightarrow> py_value \<Rightarrow> py_error + bool" where
  "contains key v =
     (case v of
        PyDict kvs \<Rightarrow> Inr (key \<in> set (map fst kvs))
      | PyList xs \<Rightarrow> Inr (PyStr key \<in> set xs)
      | PyStr s \<Rightarrow> Inr (str_contains s key)
      | _ \<Rightarrow> Inl TypeError)"

text \<open>
  \<open>v[key]\<close> for a string \<open>key\<close>: the value of a dictionary at that key, \<open>KeyError\<close>
  when it has none; \<open>TypeError\<close> for every other value (strings and lists take
  integer indices, the rest is not subscriptable).
\<close>

definition getitem :: "py_value \<Rightarrow> py_str \<Rightarrow> py_error + py_value" where
  "getitem v key =
     (case v of
        PyDict kvs \<Rightarrow> (case map_of kvs key of None \<Rightarrow> Inl KeyError | Some x \<Rightarrow> Inr x)
      | _ \<Rightarrow> Inl TypeError)"

text \<open>
  \<open>s.split(',')\<close> on a string: the pieces between the commas; a string without a comma
  is one piece, the empty string too. \<open>v.split(',')\<close> on a value that is not a
  string: \<open>AttributeError\<close>.
\<close>

fun split_comma :: "py_str \<Rightarrow> py_str list" where
  "split_comma [] = [[]]"
| "split_comma (c # cs) =
     (if c = of_char (CHR '','') then [] # split_comma cs
      else case split_comma cs of [] \<Rightarrow> [[c]] | p # ps \<Rightarrow> (c # p) # ps)"

definition py_split :: "py_value \<Rightarrow> py_error + py_str list" where
  "py_split v = (case v of PyStr s \<Rightarrow> Inr (split_comma s) | _ \<Rightarrow> Inl AttributeError)"

text \<open>
  \<open>int(s)\<close> on a string, as CPython 3.11 computes it. The string is first brought to
  ASCII: a string of code points below 128 is left as it is; in any other string a
  code point below 127 is kept, a whitespace character of Unicode becomes a space, a
  decimal digit of Unicode becomes the ASCII digit of its value, and the first other
  character becomes \<open>?\<close> and ends the string. Then the whitespace of C
  (space, \<open>\t \n \v \f \r\<close>) is skipped at both ends, one sign is allowed, and the rest
  is digits with single underscores between digits allowed; leading zeros are
  accepted. More than 4300 digits (the default of \<open>sys.get_int_max_str_digits()\<close>)
  raise \<open>ValueError\<close>, as does everything else.

  \<open>unicode_space\<close> is \<open>Py_UNICODE_ISSPACE\<close>, and \<open>decimal_zeros\<close> lists the digit
  zero of each run of ten decimal digits of Unicode 14.0.0, the character database of
  CPython 3.11.
\<close>

definition ascii_space :: "nat \<Rightarrow> bool" where
  "ascii_space c = (c = 0x20 \<or> (0x09 \<le> c \<and> c \<le> 0x0D))"

definition unicode_space :: "nat \<Rightarrow> bool" where
  "unicode_space c =
     (c \<in> set [0x09, 0x0A, 0x0B, 0x0C, 0x0D, 0x1C, 0x1D, 0x1E, 0x1F, 0x20, 0x85, 0xA0,
                0x1680, 0x2000, 0x2001, 0x2002, 0x2003, 0x2004, 0x2005, 0x2006, 0x2007,
                0x2008, 0x2009, 0x200A, 0x2028, 0x2029, 0x202F, 0x205F, 0x3000])"

definition decimal_zeros :: "nat list" where
  "decimal_zeros =
     [0x30, 0x660, 0x6F0, 0x7C0, 0x966, 0x9E6, 0xA66, 0xAE6, 0xB66, 0xBE6, 0xC66, 0xCE6,
      0xD66, 0xDE6, 0xE50, 0xED0, 0xF20, 0x1040, 0x1090, 0x17E0, 0x1810, 0x1946, 0x19D0,
      0x1A80, 0x1A90, 0x1B50, 0x1BB0, 0x1C40, 0x1C50, 0xA620, 0xA8D0, 0xA900, 0xA9D0,
      0xA9F0, 0xAA50, 0xABF0, 0xFF10, 0x104A0, 0x10D30, 0x11066, 0x110F0, 0x11136,
      0x111D0, 0x112F0, 0x11450, 0x114D0, 0x11650, 0x116C0, 0x11730, 0x118E0, 0x11950,
      0x11C50, 0x11D50, 0x11DA0, 0x16A60, 0x16AC0, 0x16B50, 0x1D7CE, 0x1D7D8, 0x1D7E2,
      0x1D7EC, 0x1D7F6, 0x1E140, 0x1E2F0, 0x1E950, 0x1FBF0]"

definition unicode_decimal :: "nat \<Rightarrow> nat option" where
  "unicode_decimal c =
     (case filter (\<lambda>z. z \<le> c \<and> c < z + 10) decimal_zeros of
        [] \<Rightarrow> None
      | z # _ \<Rightarrow> Some (c - z))"

fun transform :: "py_str \<Rightarrow> py_str" where
  "transform [] = []"
| "transform (c # cs) =
     (if c < 127 then c # transform cs
      else if unicode_space c then 0x20 # transform cs
      else case unicode_decimal c of
             None \<Rightarrow> [of_char (CHR ''?'')]
           | Some d \<Rightarrow> (of_char (CHR ''0'') + d) # transform cs)"

definition decimal_and_space_to_ascii :: "py_str \<Rightarrow> py_str" where
  "decimal_and_space_to_ascii s = (if list_all (\<lambda>c. c < 128) s then s else transform s)"

definition is_digit :: "nat \<Rightarrow> bool" where
  "is_digit c = (of_char (CHR ''0'') \<le> c \<and> c \<le> of_char (CHR ''9''))"

definition digit_val :: "nat \<Rightarrow> int" where
  "digit_val c = int c - 48"

definition strip :: "py_str \<Rightarrow> py_str" where
  "strip s = rev (dropWhile ascii_space (rev (dropWhile ascii_space s)))"

text \<open>The digits after the first one; \<open>acc\<close> is the value read so far.\<close>

fun digits_from :: "int \<Rightarrow> py_str \<Rightarrow> py_error + int" where
  "digits_from acc [] = Inr acc"
| "digits_from acc [c] = (if is_digit c then Inr (acc * 10 + digit_val c) else Inl ValueError)"
| "digits_from acc (c # d # cs) =
     (if is_digit c then digits_from (acc * 10 + digit_val c) (d # cs)
      else if c = of_char (CHR ''_'') \<and> is_digit d then digits_from acc (d # cs)
      else Inl ValueError)"

definition int_max_str_digits :: nat where
  "int_max_str_digits = 4300"

definition unsigned_int :: "py_str \<Rightarrow> py_error + int" where
  "unsigned_int s =
     (case s of
        [] \<Rightarrow> Inl ValueError
      | c # cs \<Rightarrow>
          if int_max_str_digits < length (filter is_digit s) then Inl ValueError
          else if is_digit c then digits_from (digit_val c) cs
          else Inl ValueError)"

definition py_int :: "py_str \<Rightarrow> py_error + int" where
  "py_int s =
     (case strip (decimal_and_space_to_ascii s) of
        [] \<Rightarrow> Inl ValueError
      | c # cs \<Rightarrow>
          if c = of_char (CHR ''-'')
          then (case unsigned_int cs of Inl e \<Rightarrow> Inl e | Inr n \<Rightarrow> Inr (- n))
          else if c = of_char (CHR ''+'') then unsigned_int cs
          else unsigned_int (c # cs))"

text \<open>
  \<open>int(v)\<close> on a value: a string is read as above, an integer is itself, a boolean is
  0 or 1, a finite float is truncated towards zero, an infinity raises
  \<open>OverflowError\<close>, a NaN \<open>ValueError\<close>, and \<open>None\<close>, a list or a dictionary
  \<open>TypeError\<close>.
\<close>

definition py_trunc :: "rat \<Rightarrow> int" where
  "py_trunc q = (if 0 \<le> q then \<lfloor>q\<rfloor> else \<lceil>q\<rceil>)"

definition int_of :: "py_value \<Rightarrow> py_error + int" where
  "int_of v =
     (case v of
        PyStr s \<Rightarrow> py_int s
      | PyInt n \<Rightarrow> Inr n
      | PyBool b \<Rightarrow> Inr (if b then 1 else 0)
      | PyFloat x \<Rightarrow>
          (case x of Finite q \<Rightarrow> Inr (py_trunc q) | Infinite \<Rightarrow> Inl OverflowError
           | NaN \<Rightarrow> Inl ValueError)
      | _ \<Rightarrow> Inl TypeError)"

text \<open>The list comprehension \<open>[int(x) for x in pieces]\<close>: the first failure raises.\<close>

fun int_each :: "py_str list \<Rightarrow> py_error + int list" where
  "int_each [] = Inr []"
| "int_each (x # xs) =
     (case py_int x of Inl e \<Rightarrow> Inl e
      | Inr n \<Rightarrow> (case int_each xs of Inl e \<Rightarrow> Inl e | Inr ns \<Rightarrow> Inr (n # ns)))"

section \<open>SSQCore: parsing and frequency analysis\<close>

text \<open>
  The record that \<open>save_data_to_cache\<close> writes for a draw whose red and blue fields
  are the strings \<open>r\<close> and \<open>b\<close>: \<open>{'red': r, 'blue': b}\<close>.
\<close>

definition cache_record :: "string \<Rightarrow> string \<Rightarrow> py_value" where
  "cache_record r b = PyDict [(str ''red'', PyStr (str r)), (str ''blue'', PyStr (str b))]"

text \<open>
  The two \<open>if\<close> statements of the loop of \<open>parse_numbers\<close>, on the list built so far.
  The membership test, the subscript and the truth test of the condition stand outside
  the \<open>try\<close>: an exception there leaves the function. Whatever the body of the
  \<open>try\<close> raises is caught by \<open>except BaseException: pass\<close>.
\<close>

definition parse_red :: "py_value \<Rightarrow> int list \<Rightarrow> py_error + int list" where
  "parse_red item red_balls =
     (case contains (str ''red'') item of
        Inl e \<Rightarrow> Inl e
      | Inr present \<Rightarrow>
          if \<not> present then Inr red_balls
          else (case getitem item (str ''red'') of
                  Inl e \<Rightarrow> Inl e
                | Inr v \<Rightarrow>
                    if \<not> truthy v then Inr red_balls
                    else (case py_split v of
                            Inl e \<Rightarrow> Inr red_balls
                          | Inr pieces \<Rightarrow>
                              (case int_each pieces of
                                 Inl e \<Rightarrow> Inr red_balls
                               | Inr nums \<Rightarrow>
                                   if length nums = 6 then Inr (red_balls @ nums)
                                   else Inr red_balls))))"

definition parse_blue :: "py_value \<Rightarrow> int list \<Rightarrow> py_error + int list" where
  "parse_blue item blue_balls =
     (case contains (str ''blue'') item of
        Inl e \<Rightarrow> Inl e
      | Inr present \<Rightarrow>
          if \<not> present then Inr blue_balls
          else (case getitem item (str ''blue'') of
                  Inl e \<Rightarrow> Inl e
                | Inr v \<Rightarrow>
                    if \<not> truthy v then Inr blue_balls
                    else (case int_of v of
                            Inl e \<Rightarrow> Inr blue_balls
                          | Inr n \<Rightarrow> Inr (blue_balls @ [n]))))"

fun parse_loop ::
  "py_value list \<Rightarrow> int list \<times> int list \<Rightarrow> py_error + (int list \<times> int list)" where
  "parse_loop [] acc = Inr acc"
| "parse_loop (item # data) (red_balls, blue_balls) =
     (case parse_red item red_balls of
        Inl e \<Rightarrow> Inl e
      | Inr red_balls' \<Rightarrow>
          (case parse_blue item blue_balls of
             Inl e \<Rightarrow> Inl e
           | Inr blue_balls' \<Rightarrow> parse_loop data (red_balls', blue_balls')))"

definition parse_numbers :: "py_value \<Rightarrow> py_error + (int list \<times> int list)" where
  "parse_numbers data =
     (case py_iter data of Inl e \<Rightarrow> Inl e | Inr items \<Rightarrow> parse_loop items ([], []))"

text \<open>
  A frequency table is a Python dictionary: its items in insertion order, the keys
  distinct. \<open>freq[num] += 1\<close> on a \<open>defaultdict(int)\<close> adds a new key at the end.
\<close>

type_synonym freq_table = "(int \<times> int) list"

fun incr :: "freq_table \<Rightarrow> int \<Rightarrow> freq_table" where
  "incr [] num = [(num, 1)]"
| "incr ((k, v) # kvs) num = (if k = num then (k, v + 1) # kvs else (k, v) # incr kvs num)"

fun count_in_range :: "int \<Rightarrow> int \<Rightarrow> freq_table \<Rightarrow> int list \<Rightarrow> freq_table" where
  "count_in_range lo hi freq [] = freq"
| "count_in_range lo hi freq (num # nums) =
     count_in_range lo hi (if lo \<le> num \<and> num \<le> hi then incr freq num else freq) nums"

definition analyze_frequency :: "int list \<Rightarrow> int list \<Rightarrow> freq_table \<times> freq_table" where
  "analyze_frequency red_balls blue_balls =
     (count_in_range 1 33 [] red_balls, count_in_range 1 16 [] blue_balls)"

text \<open>\<open>freq.get(num, 1)\<close>.\<close>

definition get_or :: "freq_table \<Rightarrow> int \<Rightarrow> int \<Rightarrow> int" where
  "get_or freq num dflt = (case map_of freq num of None \<Rightarrow> dflt | Some v \<Rightarrow> v)"

section \<open>RecommendEngine\<close>

datatype RecommendAlgorithm =
  FREQUENCY_WEIGHTED | PURE_RANDOM | PURE_FREQUENCY | HOT_COLD_BALANCE
  | INTERVAL_DISTRIBUTION | ODD_EVEN_BALANCE | SUM_OPTIMIZED | NO_CONSECUTIVE

text \<open>
  The first argument of \<open>generate\<close> is any Python value; it is only compared with the
  members of the enumeration.
\<close>

datatype algorithm_arg = Member RecommendAlgorithm | NoneArg | StrArg string

record recommendation =
  red :: "int list"
  blue :: int

text \<open>
  What a strategy does on a given stream: \<open>None\<close> when it never returns,
  \<open>Some (Inl e)\<close> when it raises \<open>e\<close>, \<open>Some (Inr (recs, g'))\<close> when it returns
  \<open>recs\<close> and leaves the generator at \<open>g'\<close>.
\<close>

type_synonym 'a outcome = "(py_error + ('a \<times> rng)) option"

text \<open>\<open>for _ in range(count): ...; recommendations.append(...)\<close>.\<close>

fun for_range ::
  "nat \<Rightarrow> (rng \<Rightarrow> recommendation outcome) \<Rightarrow> recommendation list \<Rightarrow> rng
     \<Rightarrow> recommendation list outcome" where
  "for_range 0 body recommendations g = Some (Inr (recommendations, g))"
| "for_range (Suc n) body recommendations g =
     (case body g of
        None \<Rightarrow> None
      | Some (Inl e) \<Rightarrow> Some (Inl e)
      | Some (Inr (r, g')) \<Rightarrow> for_range n body (recommendations @ [r]) g')"

definition all_reds :: "int list" where
  "all_reds = [1..33]"

definition all_blues :: "int list" where
  "all_blues = [1..16]"

text \<open>\<open>xs[0]\<close>.\<close>

definition item0 :: "'a list \<Rightarrow> py_error + 'a" where
  "item0 xs = (case xs of [] \<Rightarrow> Inl IndexError | x # _ \<Rightarrow> Inr x)"

text \<open>
  \<open>sorted(freq.items(), key=lambda x: x[1], reverse=True)\<close> and the same without
  \<open>reverse\<close>: both sorts are stable, so items of equal count keep the order of the
  dictionary.
\<close>

definition sorted_desc :: "freq_table \<Rightarrow> freq_table" where
  "sorted_desc freq = sort_key (\<lambda>x. - snd x) freq"

definition sorted_asc :: "freq_table \<Rightarrow> freq_table" where
  "sorted_asc freq = sort_key snd freq"

subsection \<open>Algorithm 1: frequency weighted\<close>

fun red_weights :: "freq_table \<Rightarrow> int list \<Rightarrow> rng \<Rightarrow> rat list \<times> rng" where
  "red_weights red_freq [] g = ([], g)"
| "red_weights red_freq (num # nums) g =
     (case py_uniform (1 / 10) 1 g of (u, g1) \<Rightarrow>
        (case red_weights red_freq nums g1 of (ws, g2) \<Rightarrow>
           ((of_int (get_or red_freq num 1) + u) # ws, g2)))"

definition blue_weights :: "freq_table \<Rightarrow> int list \<Rightarrow> rat list" where
  "blue_weights blue_freq nums = map (\<lambda>num. of_int (get_or blue_freq num 1)) nums"

partial_function (option) fill_reds :: "int list \<Rightarrow> rng \<Rightarrow> int list outcome" where
  "fill_reds selected_reds g =
     (if length selected_reds < 6 then
        (case py_randint 1 33 g of
           Inl e \<Rightarrow> Some (Inl e)
         | Inr (candidate, g') \<Rightarrow>
             if candidate \<notin> set selected_reds
             then fill_reds (sort (take 6 (selected_reds @ [candidate]))) g'
             else fill_reds selected_reds g')
      else Some (Inr (selected_reds, g)))"

text \<open>
  \<open>list(set(picks))[:6]\<close> has at most six elements, whose order the following
  \<open>sorted\<close> makes irrelevant.
\<close>

definition frequency_weighted_one :: "freq_table \<Rightarrow> freq_table \<Rightarrow> rng \<Rightarrow> recommendation outcome" where
  "frequency_weighted_one red_freq blue_freq g =
     (case red_weights red_freq all_reds g of (rw, g1) \<Rightarrow>
      case py_choices all_reds rw 6 g1 of
        Inl e \<Rightarrow> Some (Inl e)
      | Inr (picks, g2) \<Rightarrow>
      case fill_reds (sort (take 6 (remdups picks))) g2 of
        None \<Rightarrow> None
      | Some (Inl e) \<Rightarrow> Some (Inl e)
      | Some (Inr (selected_reds, g3)) \<Rightarrow>
      case py_choices all_blues (blue_weights blue_freq all_blues) 1 g3 of
        Inl e \<Rightarrow> Some (Inl e)
      | Inr (bs, g4) \<Rightarrow>
      case item0 bs of
        Inl e \<Rightarrow> Some (Inl e)
      | Inr selected_blue \<Rightarrow> Some (Inr (\<lparr>red = selected_reds, blue = selected_blue\<rparr>, g4)))"

definition frequency_weighted ::
  "freq_table \<Rightarrow> freq_table \<Rightarrow> nat \<Rightarrow> rng \<Rightarrow> recommendation list outcome" where
  "frequency_weighted red_freq blue_freq cnt g =
     for_range cnt (frequency_weighted_one red_freq blue_freq) [] g"

subsection \<open>Algorithm 2: pure random\<close>

definition pure_random_one :: "rng \<Rightarrow> recommendation outcome" where
  "pure_random_one g =
     (case py_sample [1..33] 6 g of
        Inl e \<Rightarrow> Some (Inl e)
      | Inr (s, g1) \<Rightarrow>
      case py_randint 1 16 g1 of
        Inl e \<Rightarrow> Some (Inl e)
      | Inr (b, g2) \<Rightarrow> Some (Inr (\<lparr>red = sort s, blue = b\<rparr>, g2)))"

definition pure_random :: "nat \<Rightarrow> rng \<Rightarrow> recommendation list outcome" where
  "pure_random cnt g = for_range cnt pure_random_one [] g"

subsection \<open>Algorithm 3: pure frequency\<close>

definition pure_frequency ::
  "freq_table \<Rightarrow> freq_table \<Rightarrow> nat \<Rightarrow> rng \<Rightarrow> recommendation list outcome" where
  "pure_frequency red_freq blue_freq cnt g =
     (let top_reds = sort (map fst (take 6 (sorted_desc red_freq))) in
      case item0 (sorted_desc blue_freq) of
        Inl e \<Rightarrow> Some (Inl e)
      | Inr top_item \<Rightarrow>
          for_range cnt (\<lambda>g. Some (Inr (\<lparr>red = top_reds, blue = fst top_item\<rparr>, g))) [] g)"

subsection \<open>Algorithm 4: hot and cold balance\<close>

definition hot_cold_balance_one :: "freq_table \<Rightarrow> freq_table \<Rightarrow> rng \<Rightarrow> recommendation outcome" where
  "hot_cold_balance_one red_freq blue_freq g =
     (let hot = take 10 (sorted_desc red_freq);
          cold = take 10 (sorted_asc red_freq) in
      case py_sample (map fst hot) 3 g of
        Inl e \<Rightarrow> Some (Inl e)
      | Inr (hot_selected, g1) \<Rightarrow>
      case py_sample (map fst cold) 3 g1 of
        Inl e \<Rightarrow> Some (Inl e)
      | Inr (cold_selected, g2) \<Rightarrow>
      case item0 (sorted_desc blue_freq) of
        Inl e \<Rightarrow> Some (Inl e)
      | Inr hot_blue \<Rightarrow>
      case item0 (sorted_asc blue_freq) of
        Inl e \<Rightarrow> Some (Inl e)
      | Inr cold_blue \<Rightarrow>
      case py_choice [fst hot_blue, fst cold_blue] g2 of
        Inl e \<Rightarrow> Some (Inl e)
      | Inr (selected_blue, g3) \<Rightarrow>
          Some (Inr (\<lparr>red = sort (hot_selected @ cold_selected), blue = selected_blue\<rparr>, g3)))"

definition hot_cold_balance ::
  "freq_table \<Rightarrow> freq_table \<Rightarrow> nat \<Rightarrow> rng \<Rightarrow> recommendation list outcome" where
  "hot_cold_balance red_freq blue_freq cnt g =
     for_range cnt (hot_cold_balance_one red_freq blue_freq) [] g"

subsection \<open>Algorithm 5: interval distribution\<close>

definition interval_distribution_one :: "rng \<Rightarrow> recommendation outcome" where
  "interval_distribution_one g =
     (case py_sample [1..11] 2 g of
        Inl e \<Rightarrow> Some (Inl e)
      | Inr (interval1, g1) \<Rightarrow>
      case py_sample [12..22] 2 g1 of
        Inl e \<Rightarrow> Some (Inl e)
      | Inr (interval2, g2) \<Rightarrow>
      case py_sample [23..33] 2 g2 of
        Inl e \<Rightarrow> Some (Inl e)
      | Inr (interval3, g3) \<Rightarrow>
      case py_randint 1 8 g3 of
        Inl e \<Rightarrow> Some (Inl e)
      | Inr (low, g4) \<Rightarrow>
      case py_randint 9 16 g4 of
        Inl e \<Rightarrow> Some (Inl e)
      | Inr (high, g5) \<Rightarrow>
      case py_choice [low, high] g5 of
        Inl e \<Rightarrow> Some (Inl e)
      | Inr (selected_blue, g6) \<Rightarrow>
          Some (Inr (\<lparr>red = sort (interval1 @ interval2 @ interval3),
                      blue = selected_blue\<rparr>, g6)))"

definition interval_distribution ::
  "freq_table \<Rightarrow> freq_table \<Rightarrow> nat \<Rightarrow> rng \<Rightarrow> recommendation list outcome" where
  "interval_distribution red_freq blue_freq cnt g =
     for_range cnt interval_distribution_one [] g"

subsection \<open>Algorithm 6: odd and even balance\<close>

definition odd_even_balance_one :: "rng \<Rightarrow> recommendation outcome" where
  "odd_even_balance_one g =
     (case py_sample (filter (\<lambda>x. x mod 2 = 1) [1..33]) 3 g of
        Inl e \<Rightarrow> Some (Inl e)
      | Inr (odds, g1) \<Rightarrow>
      case py_sample (filter (\<lambda>x. x mod 2 = 0) [1..33]) 3 g1 of
        Inl e \<Rightarrow> Some (Inl e)
      | Inr (evens, g2) \<Rightarrow>
      case py_randint 1 16 g2 of
        Inl e \<Rightarrow> Some (Inl e)
      | Inr (b, g3) \<Rightarrow>
      case py_choice [b] g3 of
        Inl e \<Rightarrow> Some (Inl e)
      | Inr (selected_blue, g4) \<Rightarrow>
          Some (Inr (\<lparr>red = sort (odds @ evens), blue = selected_blue\<rparr>, g4)))"

definition odd_even_balance ::
  "freq_table \<Rightarrow> freq_table \<Rightarrow> nat \<Rightarrow> rng \<Rightarrow> recommendation list outcome" where
  "odd_even_balance red_freq blue_freq cnt g = for_range cnt odd_even_balance_one [] g"

subsection \<open>Algorithm 7: sum optimized\<close>

text \<open>The \<open>while True\<close> loop: sample, sort, leave the loop when the sum is accepted.\<close>

partial_function (option) sum_optimized_reds :: "rng \<Rightarrow> int list outcome" where
  "sum_optimized_reds g =
     (case py_sample [1..33] 6 g of
        Inl e \<Rightarrow> Some (Inl e)
      | Inr (s, g') \<Rightarrow>
          if 80 \<le> sum_list (sort s) \<and> sum_list (sort s) \<le> 140
          then Some (Inr (sort s, g'))
          else sum_optimized_reds g')"

definition sum_optimized_one :: "rng \<Rightarrow> recommendation outcome" where
  "sum_optimized_one g =
     (case sum_optimized_reds g of
        None \<Rightarrow> None
      | Some (Inl e) \<Rightarrow> Some (Inl e)
      | Some (Inr (selected_reds, g1)) \<Rightarrow>
      case py_randint 1 16 g1 of
        Inl e \<Rightarrow> Some (Inl e)
      | Inr (selected_blue, g2) \<Rightarrow>
          Some (Inr (\<lparr>red = selected_reds, blue = selected_blue\<rparr>, g2)))"

definition sum_optimized ::
  "freq_table \<Rightarrow> freq_table \<Rightarrow> nat \<Rightarrow> rng \<Rightarrow> recommendation list outcome" where
  "sum_optimized red_freq blue_freq cnt g = for_range cnt sum_optimized_one [] g"

subsection \<open>Algorithm 8: no consecutive numbers\<close>

text \<open>
  The inner \<open>for i in range(len(selected_reds) - 1)\<close> loop, which stops at the first
  neighbours that differ by one.
\<close>

fun has_consecutive :: "int list \<Rightarrow> bool" where
  "has_consecutive (x # y # zs) = (if y - x = 1 then True else has_consecutive (y # zs))"
| "has_consecutive _ = False"

partial_function (option) no_consecutive_reds :: "rng \<Rightarrow> int list outcome" where
  "no_consecutive_reds g =
     (case py_sample [1..33] 6 g of
        Inl e \<Rightarrow> Some (Inl e)
      | Inr (s, g') \<Rightarrow>
          if \<not> has_consecutive (sort s)
          then Some (Inr (sort s, g'))
          else no_consecutive_reds g')"

definition no_consecutive_one :: "rng \<Rightarrow> recommendation outcome" where
  "no_consecutive_one g =
     (case no_consecutive_reds g of
        None \<Rightarrow> None
      | Some (Inl e) \<Rightarrow> Some (Inl e)
      | Some (Inr (selected_reds, g1)) \<Rightarrow>
      case py_randint 1 16 g1 of
        Inl e \<Rightarrow> Some (Inl e)
      | Inr (selected_blue, g2) \<Rightarrow>
          Some (Inr (\<lparr>red = selected_reds, blue = selected_blue\<rparr>, g2)))"

definition no_consecutive ::
  "freq_table \<Rightarrow> freq_table \<Rightarrow> nat \<Rightarrow> rng \<Rightarrow> recommendation list outcome" where
  "no_consecutive red_freq blue_freq cnt g = for_range cnt no_consecutive_one [] g"

subsection \<open>The dispatch\<close>

definition generate ::
  "algorithm_arg \<Rightarrow> freq_table \<Rightarrow> freq_table \<Rightarrow> nat \<Rightarrow> rng \<Rightarrow> recommendation list outcome" where
  "generate algorithm red_freq blue_freq cnt g =
     (if algorithm = Member FREQUENCY_WEIGHTED then frequency_weighted red_freq blue_freq cnt g
      else if algorithm = Member PURE_RANDOM then pure_random cnt g
      else if algorithm = Member PURE_FREQUENCY then pure_frequency red_freq blue_freq cnt g
      else if algorithm = Member HOT_COLD_BALANCE then hot_cold_balance red_freq blue_freq cnt g
      else if algorithm = Member INTERVAL_DISTRIBUTION
        then interval_distribution red_freq blue_freq cnt g
      else if algorithm = Member ODD_EVEN_BALANCE then odd_even_balance red_freq blue_freq cnt g
      else if algorithm = Member SUM_OPTIMIZED then sum_optimized red_freq blue_freq cnt g
      else if algorithm = Member NO_CONSECUTIVE then no_consecutive red_freq blue_freq cnt g
      else frequency_weighted red_freq blue_freq cnt g)"

section \<open>Notions used in the statements\<close>

text \<open>
  The records of the specification: a record is a mapping, and its red and blue
  fields, when it has them, are strings. \<open>entry\<close> is the field of a record, if any;
  \<open>scalar\<close> are the values that are neither a mapping nor a sequence: \<open>None\<close>, the
  booleans and the numbers.
\<close>

definition is_dict :: "py_value \<Rightarrow> bool" where
  "is_dict v = (case v of PyDict kvs \<Rightarrow> True | _ \<Rightarrow> False)"

definition scalar :: "py_value \<Rightarrow> bool" where
  "scalar v =
     (case v of PyNone \<Rightarrow> True | PyBool b \<Rightarrow> True | PyInt n \<Rightarrow> True | PyFloat x \<Rightarrow> True
      | _ \<Rightarrow> False)"

definition entry :: "py_str \<Rightarrow> py_value \<Rightarrow> py_value option" where
  "entry key item = (case item of PyDict kvs \<Rightarrow> map_of kvs key | _ \<Rightarrow> None)"

definition text_or_absent :: "py_value option \<Rightarrow> bool" where
  "text_or_absent f = (case f of None \<Rightarrow> True | Some (PyStr s) \<Rightarrow> True | Some _ \<Rightarrow> False)"

definition draw_record :: "py_value \<Rightarrow> bool" where
  "draw_record item =
     (is_dict item \<and> text_or_absent (entry (str ''red'') item)
      \<and> text_or_absent (entry (str ''blue'') item))"

text \<open>
  What the specification calls decoding a record: the red field decodes to the integers
  of its comma-separated pieces when every piece is an integer literal, the blue field
  to its integer when it is one. These two follow the specification's words, for
  comparison with \<open>parse_numbers\<close>.
\<close>

definition red_field_ints :: "py_value \<Rightarrow> int list option" where
  "red_field_ints item =
     (case entry (str ''red'') item of
        Some (PyStr s) \<Rightarrow> (case int_each (split_comma s) of Inl e \<Rightarrow> None | Inr ns \<Rightarrow> Some ns)
      | _ \<Rightarrow> None)"

definition blue_field_int :: "py_value \<Rightarrow> int option" where
  "blue_field_int item =
     (case entry (str ''blue'') item of
        Some (PyStr s) \<Rightarrow> (case py_int s of Inl e \<Rightarrow> None | Inr n \<Rightarrow> Some n)
      | _ \<Rightarrow> None)"

text \<open>What one record contributes to each list, in the specification's words.\<close>

definition red_part :: "py_value \<Rightarrow> int list" where
  "red_part item =
     (case red_field_ints item of None \<Rightarrow> [] | Some ns \<Rightarrow> if length ns = 6 then ns else [])"

definition blue_part :: "py_value \<Rightarrow> int list" where
  "blue_part item = (case blue_field_int item of None \<Rightarrow> [] | Some n \<Rightarrow> [n])"

text \<open>
  A batch of seven records: a well-formed draw; a draw with five red numbers and
  spaces around its blue number; a draw with a red piece that is no number and an
  underscore in its blue number; a record with only a blue field, which starts with
  the control character U+001C; a record with neither field; a record whose red field
  starts with a no-break space and has a sign, and whose blue field is the
  Arabic-Indic digit three; a record with an empty red field and two underscores in
  its blue field.
\<close>

definition example_batch :: "py_value list" where
  "example_batch =
     [cache_record ''01,02,03,04,05,06'' ''07'',
      cache_record ''1,2,3,4,5'' '' 9 '',
      cache_record ''1,2,x,4,5,6'' ''1_0'',
      PyDict [(str ''blue'', PyStr [0x1C, 0x37])],
      PyDict [(str ''code'', PyStr (str ''2024001''))],
      PyDict [(str ''red'', PyStr (0xA0 # str ''11,12,13,14,15,+16'')),
              (str ''blue'', PyStr [0x663])],
      cache_record [] ''1__0'']"

text \<open>
  The shape of the red part of a recommendation in the data model: six numbers of the
  red domain, pairwise different, in ascending order.
\<close>

definition valid_reds :: "int list \<Rightarrow> bool" where
  "valid_reds reds = (length reds = 6 \<and> distinct reds \<and> sorted reds \<and> set reds \<subseteq> {1..33})"

text \<open>
  The sample that iteration \<open>k\<close> (from 0) of a \<open>while True\<close> sampling loop started on
  \<open>g\<close> draws and sorts: every iteration consumes six draws.
\<close>

definition attempt :: "nat \<Rightarrow> rng \<Rightarrow> int list" where
  "attempt k g = sort (fst (sample_pool [1..33] 6 (sdrop (6 * k) g)))"

text \<open>A call returns: it neither raises nor runs forever.\<close>

definition returns :: "'a outcome \<Rightarrow> bool" where
  "returns out = (case out of Some (Inr v) \<Rightarrow> True | _ \<Rightarrow> False)"

text \<open>The acceptance test of the sum-optimized loop.\<close>

definition sum_accepted :: "int list \<Rightarrow> bool" where
  "sum_accepted reds = (80 \<le> sum_list reds \<and> sum_list reds \<le> 140)"

text \<open>
  In a list, \<open>a\<close> occurs before the first occurrence of \<open>b\<close>.
\<close>

definition precedes :: "'a \<Rightarrow> 'a \<Rightarrow> 'a list \<Rightarrow> bool" where
  "precedes a b xs = (a \<in> set (takeWhile (\<lambda>x. x \<noteq> b) xs))"

text \<open>
  The red numbers of pure-frequency in the specification's words: the six numbers of
  highest count, numbers of equal count taken in ascending order.
\<close>

definition spec_top_reds :: "freq_table \<Rightarrow> int list" where
  "spec_top_reds freq = sort (map fst (take 6 (sort_key (\<lambda>x. - snd x) (sort_key fst freq))))"

text \<open>
  The table of the specification's example, \<open>{1: 10, all others: 1}\<close>, with its keys
  inserted in ascending order.
\<close>

definition example_red_freq :: freq_table where
  "example_red_freq = (1, 10) # map (\<lambda>n. (n, 1)) [2..33]"

text \<open>
  A blue table with a tie for the highest count.
\<close>

definition example_blue_freq :: freq_table where
  "example_blue_freq = [(3, 2), (5, 7), (9, 7)]"

text \<open>
  What the top-up loop of frequency-weighted guarantees when it returns \<open>res\<close> from the
  selection \<open>sel\<close> on the stream \<open>g\<close>: it does not raise, it keeps the selection, it
  ends with six numbers when it started with at most six, it keeps distinctness and
  order, and every number it adds is a \<open>randint(1, 33)\<close> candidate read from \<open>g\<close>.
\<close>

definition fill_ok :: "int list \<Rightarrow> rng \<Rightarrow> py_error + (int list \<times> rng) \<Rightarrow> bool" where
  "fill_ok sel g res =
     (case res of
        Inl e \<Rightarrow> False
      | Inr (reds, g') \<Rightarrow>
          6 \<le> length reds \<and> set sel \<subseteq> set reds
          \<and> (length sel \<le> 6 \<longrightarrow> length reds = 6)
          \<and> (distinct sel \<longrightarrow> distinct reds)
          \<and> (sorted sel \<longrightarrow> sorted reds)
          \<and> (\<forall>x\<in>set reds - set sel. \<exists>i. x = 1 + int (g !! i mod 33)))"

text \<open>
  A recommendation of the data model: valid red numbers and a blue number of the blue
  domain.
\<close>

definition valid_recommendation :: "recommendation \<Rightarrow> bool" where
  "valid_recommendation r = (valid_reds (red r) \<and> blue r \<in> {1..16})"

section \<open>Properties of MessageQueue\<close>

lemma send_all_append: "send_all q ms = q @ ms"
  by (induction q ms rule: send_all.induct) (simp_all add: send_def put_def)

text \<open>
  Claim C9. \<open>receive\<close> on an empty channel returns \<open>(None, None)\<close> at once, without
  raising, and leaves the channel empty; on a channel that holds the messages sent so
  far it returns the oldest one, type and payload, and leaves exactly the later ones.
\<close>

theorem receive_nonblocking_fifo:
  "receive ([] :: 'd message_queue) = Inr ((None, None), [])
   \<and> receive (send_all [] ((t, d) # ms)) = Inr ((Some t, d), send_all [] ms)
   \<and> receive ((t, d) # q) = Inr ((Some t, d), q)"
  by (simp add: receive_def get_nowait_def send_all_append)

section \<open>The dispatch of generate\<close>

text \<open>
  Claim C10. An algorithm argument that is none of the eight members of
  \<open>RecommendAlgorithm\<close> raises nothing in the dispatch: \<open>generate\<close> is then the
  frequency-weighted strategy on the same tables, count and generator.
\<close>

theorem generate_default_fallback:
  assumes "algorithm \<notin> Member ` {FREQUENCY_WEIGHTED, PURE_RANDOM, PURE_FREQUENCY,
             HOT_COLD_BALANCE, INTERVAL_DISTRIBUTION, ODD_EVEN_BALANCE, SUM_OPTIMIZED,
             NO_CONSECUTIVE}"
  shows "generate algorithm red_freq blue_freq cnt g
           = frequency_weighted red_freq blue_freq cnt g"
  using assms by (simp add: generate_def)

theorem generate_default_fallback_witness:
  "StrArg ''lucky'' \<notin> Member ` {FREQUENCY_WEIGHTED, PURE_RANDOM, PURE_FREQUENCY,
       HOT_COLD_BALANCE, INTERVAL_DISTRIBUTION, ODD_EVEN_BALANCE, SUM_OPTIMIZED,
       NO_CONSECUTIVE}
   \<and> generate (StrArg ''lucky'') [(1, 2)] [] 3 (sconst 0)
       = frequency_weighted [(1, 2)] [] 3 (sconst 0)"
proof -
  have h: "StrArg ''lucky'' \<notin> Member ` {FREQUENCY_WEIGHTED, PURE_RANDOM, PURE_FREQUENCY,
       HOT_COLD_BALANCE, INTERVAL_DISTRIBUTION, ODD_EVEN_BALANCE, SUM_OPTIMIZED,
       NO_CONSECUTIVE}"
    by auto
  show ?thesis
    using h generate_default_fallback [OF h, of "[(1, 2)]" "[]" 3 "sconst 0"] by simp
qed

section \<open>Parsing\<close>

lemmas parse_eval = parse_numbers_def py_iter_def parse_red_def parse_blue_def contains_def
  getitem_def py_split_def int_of_def py_int_def decimal_and_space_to_ascii_def strip_def
  unsigned_int_def int_max_str_digits_def is_digit_def digit_val_def ascii_space_def
  unicode_space_def unicode_decimal_def decimal_zeros_def cache_record_def

lemmas part_eval = red_part_def blue_part_def red_field_ints_def blue_field_int_def entry_def
  py_int_def decimal_and_space_to_ascii_def strip_def
  unsigned_int_def int_max_str_digits_def is_digit_def digit_val_def ascii_space_def
  unicode_space_def unicode_decimal_def decimal_zeros_def cache_record_def

lemma py_int_empty: "py_int [] = Inl ValueError"
  by (simp add: py_int_def strip_def decimal_and_space_to_ascii_def)

text \<open>
  What \<open>int\<close> reads: a non-empty string of at most 4300 ASCII digits is the decimal
  number it writes, leading zeros included; 4301 digits or more raise \<open>ValueError\<close>.
\<close>

lemma dropWhile_none: "\<forall>c\<in>set s. \<not> P c \<Longrightarrow> dropWhile P s = s"
  by (cases s) simp_all

lemma strip_no_space: "\<forall>c\<in>set s. \<not> ascii_space c \<Longrightarrow> strip s = s"
  by (simp add: strip_def dropWhile_none)

lemma digits_from_decimal:
  "list_all (\<lambda>d. d < 10) ds \<Longrightarrow>
     digits_from acc (map (\<lambda>d. 48 + d) ds) = Inr (foldl (\<lambda>a d. a * 10 + int d) acc ds)"
proof (induction ds arbitrary: acc)
  case Nil
  then show ?case by simp
next
  case (Cons d ds)
  then show ?case
    by (cases ds) (simp_all add: is_digit_def digit_val_def)
qed

lemma py_int_decimal:
  assumes "list_all (\<lambda>d. d < 10) ds" "ds \<noteq> []" "length ds \<le> 4300"
  shows "py_int (map (\<lambda>d. 48 + d) ds) = Inr (foldl (\<lambda>a d. a * 10 + int d) 0 ds)"
proof -
  let ?s = "map (\<lambda>d. 48 + d) ds"
  from assms(2) obtain d ds' where ds: "ds = d # ds'" by (cases ds) auto
  have dig: "\<forall>c\<in>set ?s. is_digit c"
    using assms(1) by (auto simp: list_all_iff is_digit_def)
  then have nsp: "\<forall>c\<in>set ?s. \<not> ascii_space c"
    by (auto simp: is_digit_def ascii_space_def)
  have asc: "decimal_and_space_to_ascii ?s = ?s"
    using assms(1) by (auto simp: decimal_and_space_to_ascii_def list_all_iff)
  have flt: "filter is_digit ?s = ?s"
    using dig by (simp only: filter_id_conv)
  have len: "\<not> int_max_str_digits < length (filter is_digit ?s)"
    unfolding flt using assms(3) by (simp add: int_max_str_digits_def)
  have d: "d < 10" and ds': "list_all (\<lambda>d. d < 10) ds'"
    using assms(1) by (simp_all add: ds)
  have u: "unsigned_int ?s = Inr (foldl (\<lambda>a d. a * 10 + int d) 0 ds)"
    using len d digits_from_decimal [OF ds', of "int d"]
    by (simp add: unsigned_int_def ds is_digit_def digit_val_def)
  have "py_int ?s = unsigned_int ?s"
    unfolding py_int_def asc strip_no_space [OF nsp] using d
    by (simp add: ds)
  with u show ?thesis by simp
qed

lemma py_int_digit_limit:
  assumes "4300 \<le> n"
  shows "py_int (replicate (Suc n) (of_char (CHR ''1''))) = Inl ValueError"
proof -
  let ?s = "replicate (Suc n) (49::nat)"
  have asc: "decimal_and_space_to_ascii ?s = ?s"
    by (simp add: decimal_and_space_to_ascii_def list_all_iff)
  have "strip ?s = ?s"
    by (rule strip_no_space) (simp add: ascii_space_def)
  moreover have "length (filter is_digit ?s) = Suc n"
    by (simp add: is_digit_def)
  ultimately show ?thesis
    using assms unfolding py_int_def
    by (simp add: asc unsigned_int_def int_max_str_digits_def is_digit_def del: replicate.simps)
       (simp add: unsigned_int_def int_max_str_digits_def is_digit_def)
qed

lemma contains_dict: "contains key (PyDict kvs) = Inr (map_of kvs key \<noteq> None)"
  by (simp add: contains_def map_of_eq_None_iff)

lemma parse_red_dict:
  "parse_red (PyDict kvs) red_balls =
     (case map_of kvs (str ''red'') of
        Some (PyStr s) \<Rightarrow>
          (case int_each (split_comma s) of
             Inl e \<Rightarrow> Inr red_balls
           | Inr nums \<Rightarrow> if length nums = 6 then Inr (red_balls @ nums) else Inr red_balls)
      | _ \<Rightarrow> Inr red_balls)"
  unfolding parse_red_def contains_dict
  by (auto simp: getitem_def py_split_def py_int_empty
      split: option.splits py_value.splits sum.splits)

lemma parse_blue_dict:
  "parse_blue (PyDict kvs) blue_balls =
     (case map_of kvs (str ''blue'') of
        None \<Rightarrow> Inr blue_balls
      | Some v \<Rightarrow>
          if truthy v
          then (case int_of v of Inl e \<Rightarrow> Inr blue_balls | Inr n \<Rightarrow> Inr (blue_balls @ [n]))
          else Inr blue_balls)"
  unfolding parse_blue_def contains_dict
  by (auto simp: getitem_def split: option.splits)

lemma parse_red_returns: "is_dict item \<Longrightarrow> \<exists>rs. parse_red item red_balls = Inr rs"
  by (cases item)
     (auto simp: is_dict_def parse_red_dict split: option.splits py_value.splits sum.splits)

lemma parse_blue_returns: "is_dict item \<Longrightarrow> \<exists>bs. parse_blue item blue_balls = Inr bs"
  by (cases item) (auto simp: is_dict_def parse_blue_dict split: option.splits sum.splits)

lemma parse_red_part:
  "draw_record item \<Longrightarrow> parse_red item red_balls = Inr (red_balls @ red_part item)"
  by (cases item)
     (auto simp: draw_record_def is_dict_def parse_red_dict red_part_def red_field_ints_def
        entry_def text_or_absent_def split: option.splits py_value.splits sum.splits)

lemma parse_blue_part:
  "draw_record item \<Longrightarrow> parse_blue item blue_balls = Inr (blue_balls @ blue_part item)"
  by (cases item)
     (auto simp: draw_record_def is_dict_def parse_blue_dict blue_part_def blue_field_int_def
        entry_def text_or_absent_def int_of_def py_int_empty
        split: option.splits py_value.splits sum.splits)

lemma parse_loop_returns:
  "list_all is_dict items \<Longrightarrow> \<exists>r. parse_loop items (rs, bs) = Inr r"
proof (induction items arbitrary: rs bs)
  case Nil
  then show ?case by simp
next
  case (Cons item items)
  from Cons.prems have d: "is_dict item" and ds: "list_all is_dict items" by simp_all
  from parse_red_returns [OF d] obtain rs' where r: "parse_red item rs = Inr rs'" ..
  from parse_blue_returns [OF d] obtain bs' where b: "parse_blue item bs = Inr bs'" ..
  from Cons.IH [OF ds] r b show ?case by simp
qed

lemma parse_loop_concat:
  "list_all draw_record items \<Longrightarrow>
     parse_loop items (rs, bs)
       = Inr (rs @ concat (map red_part items), bs @ concat (map blue_part items))"
  by (induction items arbitrary: rs bs) (simp_all add: parse_red_part parse_blue_part)

text \<open>The only exception that leaves the two \<open>if\<close> statements is \<open>TypeError\<close>.\<close>

lemma parse_red_raises: "parse_red item red_balls = Inl e \<Longrightarrow> e = TypeError"
  by (cases item)
     (auto simp: parse_red_def contains_def getitem_def map_of_eq_None_iff
        split: if_splits option.splits sum.splits)

lemma parse_blue_raises: "parse_blue item blue_balls = Inl e \<Longrightarrow> e = TypeError"
  by (cases item)
     (auto simp: parse_blue_def contains_def getitem_def map_of_eq_None_iff
        split: if_splits option.splits sum.splits)

lemma parse_red_scalar: "scalar item \<Longrightarrow> parse_red item red_balls = Inl TypeError"
  by (cases item) (simp_all add: scalar_def parse_red_def contains_def)

lemma parse_loop_scalar:
  "list_ex scalar items \<Longrightarrow> parse_loop items (rs, bs) = Inl TypeError"
proof (induction items arbitrary: rs bs)
  case Nil
  then show ?case by simp
next
  case (Cons item items)
  show ?case
  proof (cases "parse_red item rs")
    case (Inl e)
    with parse_red_raises [OF Inl] show ?thesis by simp
  next
    case r: (Inr rs')
    with parse_red_scalar [of item rs] have ns: "\<not> scalar item" by auto
    show ?thesis
    proof (cases "parse_blue item bs")
      case (Inl e)
      with parse_blue_raises [OF Inl] r show ?thesis by simp
    next
      case (Inr bs')
      from Cons.prems ns have "list_ex scalar items" by simp
      from Cons.IH [OF this] r Inr show ?thesis by simp
    qed
  qed
qed

text \<open>
  Against claim C8 as stated: \<open>parse_numbers\<close> fails on some batches. A batch whose
  only record is \<open>None\<close> raises \<open>TypeError\<close>; so does a batch of a well-formed draw
  followed by the number 5, whose well-formed draw is lost with it; so does a batch
  that is itself a number or \<open>None\<close>. And a blue field that is the number 0 is an
  integer for \<open>int\<close>, but it is not appended.
\<close>

theorem parse_numbers_fails_counterexample:
  "parse_numbers (PyList [PyNone]) = Inl TypeError
   \<and> parse_numbers (PyList [cache_record ''01,02,03,04,05,06'' ''07'', PyInt 5])
       = Inl TypeError
   \<and> parse_numbers (PyInt 5) = Inl TypeError
   \<and> parse_numbers PyNone = Inl TypeError
   \<and> int_of (PyInt 0) = Inr 0
   \<and> parse_numbers (PyList [PyDict [(str ''blue'', PyInt 0)]]) = Inr ([], [])"
  by (simp add: parse_eval)

text \<open>
  Claim C8, amended. On every batch that is a list of mappings \<open>parse_numbers\<close>
  returns, whatever the fields of the records hold. When the red and blue fields of
  the records, where present, are strings, the red list is the concatenation, record
  by record, of the six integers of each record whose red field decodes to exactly six
  integers (nothing for the other records), and the blue list holds, record by record,
  the integer of each record whose blue field decodes to one; a failure of one check
  leaves the other check and the other records untouched. On a list that holds
  \<open>None\<close>, a boolean or a number as a record, and on a batch that is itself one of
  these, \<open>parse_numbers\<close> raises \<open>TypeError\<close>.
\<close>

theorem parse_numbers_resilient:
  "(list_all is_dict items \<longrightarrow>
      (\<exists>reds blues. parse_numbers (PyList items) = Inr (reds, blues)))
   \<and> (list_all draw_record items \<longrightarrow>
        parse_numbers (PyList items)
          = Inr (concat (map red_part items), concat (map blue_part items)))
   \<and> (list_ex scalar items \<longrightarrow> parse_numbers (PyList items) = Inl TypeError)
   \<and> (scalar data \<longrightarrow> parse_numbers data = Inl TypeError)"
proof -
  have a: "\<exists>reds blues. parse_numbers (PyList items) = Inr (reds, blues)"
    if "list_all is_dict items"
    using parse_loop_returns [OF that, of "[]" "[]"] by (auto simp: parse_numbers_def py_iter_def)
  have b: "parse_numbers (PyList items)
      = Inr (concat (map red_part items), concat (map blue_part items))"
    if "list_all draw_record items"
    using parse_loop_concat [OF that, of "[]" "[]"] by (simp add: parse_numbers_def py_iter_def)
  have c: "parse_numbers (PyList items) = Inl TypeError" if "list_ex scalar items"
    using parse_loop_scalar [OF that, of "[]" "[]"] by (simp add: parse_numbers_def py_iter_def)
  have d: "parse_numbers data = Inl TypeError" if "scalar data"
    using that by (cases data) (simp_all add: scalar_def parse_numbers_def py_iter_def)
  from a b c d show ?thesis by blast
qed

theorem parse_numbers_resilient_witness:
  "list_all is_dict example_batch \<and> list_all draw_record example_batch
   \<and> parse_numbers (PyList example_batch)
       = Inr ([1,2,3,4,5,6,11,12,13,14,15,16], [7,9,10,3])
   \<and> list_all is_dict [PyDict [(str ''red'', PyInt 5), (str ''blue'', PyFloat NaN)]]
   \<and> (\<exists>reds blues.
         parse_numbers (PyList [PyDict [(str ''red'', PyInt 5), (str ''blue'', PyFloat NaN)]])
           = Inr (reds, blues))
   \<and> list_ex scalar [cache_record ''01,02,03,04,05,06'' ''07'', PyBool True]
   \<and> parse_numbers (PyList [cache_record ''01,02,03,04,05,06'' ''07'', PyBool True])
       = Inl TypeError
   \<and> scalar (PyInt 7) \<and> parse_numbers (PyInt 7) = Inl TypeError"
proof -
  have d: "list_all is_dict example_batch"
    by (simp add: example_batch_def is_dict_def cache_record_def)
  have r: "list_all draw_record example_batch"
    by (simp add: example_batch_def draw_record_def is_dict_def cache_record_def
        text_or_absent_def entry_def)
  have reds: "concat (map red_part example_batch) = [1,2,3,4,5,6,11,12,13,14,15,16]"
    by (simp add: example_batch_def part_eval)
  have blues: "concat (map blue_part example_batch) = [7,9,10,3]"
    by (simp add: example_batch_def part_eval)
  have d2: "list_all is_dict [PyDict [(str ''red'', PyInt 5), (str ''blue'', PyFloat NaN)]]"
    by (simp add: is_dict_def)
  have s: "list_ex scalar [cache_record ''01,02,03,04,05,06'' ''07'', PyBool True]"
    by (simp add: scalar_def)
  have s2: "scalar (PyInt 7)"
    by (simp add: scalar_def)
  from parse_numbers_resilient [of example_batch] r reds blues
  have 1: "parse_numbers (PyList example_batch)
       = Inr ([1,2,3,4,5,6,11,12,13,14,15,16], [7,9,10,3])"
    by simp
  from parse_numbers_resilient
    [of "[PyDict [(str ''red'', PyInt 5), (str ''blue'', PyFloat NaN)]]"] d2
  have 2: "\<exists>reds blues.
         parse_numbers (PyList [PyDict [(str ''red'', PyInt 5), (str ''blue'', PyFloat NaN)]])
           = Inr (reds, blues)"
    by blast
  from parse_numbers_resilient
    [of "[cache_record ''01,02,03,04,05,06'' ''07'', PyBool True]" "PyInt 7"] s s2
  have 3: "parse_numbers (PyList [cache_record ''01,02,03,04,05,06'' ''07'', PyBool True])
       = Inl TypeError" "parse_numbers (PyInt 7) = Inl TypeError"
    by blast+
  from d r 1 d2 2 s 3 s2 show ?thesis by blast
qed

section \<open>The random module\<close>

lemma randbelow_less: "0 < n \<Longrightarrow> fst (randbelow n g) < n"
  by (simp add: randbelow_def)

lemma sample_pool_length: "length (fst (sample_pool pool k g)) = k"
  by (induction k arbitrary: pool g) (simp_all add: split_beta)

lemma sample_pool_rng: "snd (sample_pool pool k g) = sdrop k g"
  by (induction k arbitrary: pool g) (simp_all add: split_beta randbelow_def)

lemma mset_remove_nth:
  "j < length pool \<Longrightarrow> mset pool = add_mset (pool ! j) (mset (take j pool @ drop (Suc j) pool))"
proof -
  assume "j < length pool"
  then have "pool = take j pool @ pool ! j # drop (Suc j) pool"
    by (simp add: id_take_nth_drop)
  then have "mset pool = mset (take j pool @ pool ! j # drop (Suc j) pool)"
    by simp
  then show ?thesis by simp
qed

lemma sample_pool_mset:
  "k \<le> length pool \<Longrightarrow> mset (fst (sample_pool pool k g)) \<subseteq># mset pool"
proof (induction k arbitrary: pool g)
  case 0
  then show ?case by simp
next
  case (Suc k)
  define j where "j = fst (randbelow (length pool) g)"
  define g1 where "g1 = snd (randbelow (length pool) g)"
  define rest where "rest = take j pool @ drop (Suc j) pool"
  from Suc.prems have pos: "0 < length pool" by arith
  then have j: "j < length pool" unfolding j_def by (rule randbelow_less)
  have split: "mset pool = add_mset (pool ! j) (mset rest)"
    unfolding rest_def using j by (rule mset_remove_nth)
  have len: "length rest = length pool - 1" unfolding rest_def using j by simp
  with Suc.prems have "k \<le> length rest" by simp
  then have ih: "mset (fst (sample_pool rest k g1)) \<subseteq># mset rest" by (rule Suc.IH)
  have "fst (sample_pool pool (Suc k) g) = pool ! j # fst (sample_pool rest k g1)"
    by (simp add: split_beta j_def g1_def rest_def)
  with ih split show ?case by simp
qed

lemma sample_pool_set: "k \<le> length pool \<Longrightarrow> set (fst (sample_pool pool k g)) \<subseteq> set pool"
  using set_mset_mono [OF sample_pool_mset [of k pool g]] by simp

lemma sample_pool_distinct:
  assumes "k \<le> length pool" "distinct pool"
  shows "distinct (fst (sample_pool pool k g))"
proof -
  let ?s = "fst (sample_pool pool k g)"
  have "mset ?s \<subseteq># mset pool"
    using assms(1) by (rule sample_pool_mset)
  then obtain M where M: "mset pool = mset ?s + M"
    by (auto simp: mset_subset_eq_exists_conv)
  obtain zs where zs: "M = mset zs"
    using ex_mset [of M] by auto
  have "mset pool = mset (?s @ zs)"
    using M zs by simp
  then have "distinct (?s @ zs)"
    using assms(2) mset_eq_imp_distinct_iff by blast
  then show ?thesis by simp
qed

lemma py_sample_Inr:
  assumes "py_sample pool k g = Inr (s, g')"
  shows "length s = k" "mset s \<subseteq># mset pool" "set s \<subseteq> set pool"
    "distinct pool \<Longrightarrow> distinct s" "g' = sdrop k g"
proof -
  from assms have k: "k \<le> length pool" and s: "s = fst (sample_pool pool k g)"
    and g': "g' = snd (sample_pool pool k g)"
    by (auto simp: py_sample_def split: if_splits)
  show "length s = k" by (simp add: s sample_pool_length)
  show "mset s \<subseteq># mset pool" unfolding s using k by (rule sample_pool_mset)
  show "set s \<subseteq> set pool" unfolding s using k by (rule sample_pool_set)
  show "distinct pool \<Longrightarrow> distinct s" unfolding s using k by (rule sample_pool_distinct)
  show "g' = sdrop k g" by (simp add: g' sample_pool_rng)
qed

lemma py_sample_33_6: "\<exists>s. py_sample [1..33] 6 g = Inr (s, sdrop 6 g)"
  by (simp add: py_sample_def) (metis prod.collapse sample_pool_rng)

lemma for_range_inv:
  assumes body: "\<And>g r g'. body g = Some (Inr (r, g')) \<Longrightarrow> P r"
  shows "for_range n body recs g = Some (Inr (out, g')) \<Longrightarrow> \<forall>r\<in>set recs. P r
           \<Longrightarrow> (\<forall>r\<in>set out. P r) \<and> length out = length recs + n"
proof (induction n arbitrary: recs g)
  case 0
  then show ?case by simp
next
  case (Suc n)
  from Suc.prems(1) obtain r g1 where b: "body g = Some (Inr (r, g1))"
    and rest: "for_range n body (recs @ [r]) g1 = Some (Inr (out, g'))"
    by (auto split: option.splits sum.splits)
  from body [OF b] Suc.prems(2) have "\<forall>x\<in>set (recs @ [r]). P x" by simp
  from Suc.IH [OF rest this] show ?case by simp
qed

lemma sample6_valid:
  assumes "py_sample [1..33] 6 g = Inr (s, g')"
  shows "valid_reds (sort s)"
  using py_sample_Inr [OF assms] by (simp add: valid_reds_def)

lemma sum_optimized_reds_sum:
  assumes "sum_optimized_reds g = Some res"
  shows "case res of Inl e \<Rightarrow> False
      | Inr (reds, g') \<Rightarrow> 80 \<le> sum_list reds \<and> sum_list reds \<le> 140 \<and> valid_reds reds"
  using assms
proof (induct rule: sum_optimized_reds.raw_induct)
  case (1 f g res)
  obtain s where s: "py_sample [1..33] 6 g = Inr (s, sdrop 6 g)"
    using py_sample_33_6 by blast
  show ?case
  proof (cases "80 \<le> sum_list (sort s) \<and> sum_list (sort s) \<le> 140")
    case True
    with 1(2) s have "res = Inr (sort s, sdrop 6 g)" by simp
    with True sample6_valid [OF s] show ?thesis by simp
  next
    case False
    with 1(2) s have a: "f (sdrop 6 g) = Some res" by auto
    from 1(3) have "sum_optimized_reds (sdrop 6 g) = Some res"
      by (subst (asm) sum_optimized_reds.simps) (use s False in auto)
    with a show ?thesis by (rule 1(1))
  qed
qed (rule assms)

lemma no_consecutive_reds_ok:
  assumes "no_consecutive_reds g = Some res"
  shows "case res of Inl e \<Rightarrow> False
      | Inr (reds, g') \<Rightarrow> \<not> has_consecutive reds \<and> valid_reds reds"
  using assms
proof (induct rule: no_consecutive_reds.raw_induct)
  case (1 f g res)
  obtain s where s: "py_sample [1..33] 6 g = Inr (s, sdrop 6 g)"
    using py_sample_33_6 by blast
  show ?case
  proof (cases "has_consecutive (sort s)")
    case False
    with 1(2) s have "res = Inr (sort s, sdrop 6 g)" by simp
    with False sample6_valid [OF s] show ?thesis by simp
  next
    case True
    with 1(2) s have a: "f (sdrop 6 g) = Some res" by auto
    from 1(3) have "no_consecutive_reds (sdrop 6 g) = Some res"
      by (subst (asm) no_consecutive_reds.simps) (use s True in auto)
    with a show ?thesis by (rule 1(1))
  qed
qed (rule assms)

lemma has_consecutive_iff:
  "has_consecutive xs \<longleftrightarrow> (\<exists>i. Suc i < length xs \<and> xs ! Suc i - xs ! i = 1)"
proof (induction xs rule: has_consecutive.induct)
  case (1 x y zs)
  show ?case
  proof (cases "y - x = 1")
    case True
    then have "Suc 0 < length (x # y # zs) \<and> (x # y # zs) ! Suc 0 - (x # y # zs) ! 0 = 1"
      by simp
    then have "\<exists>i. Suc i < length (x # y # zs) \<and> (x # y # zs) ! Suc i - (x # y # zs) ! i = 1"
      by blast
    with True show ?thesis by simp
  next
    case False
    have "(\<exists>i. Suc i < length (x # y # zs) \<and> (x # y # zs) ! Suc i - (x # y # zs) ! i = 1)
          \<longleftrightarrow> (\<exists>i. Suc i < length (y # zs) \<and> (y # zs) ! Suc i - (y # zs) ! i = 1)"
    proof
      assume "\<exists>i. Suc i < length (x # y # zs) \<and> (x # y # zs) ! Suc i - (x # y # zs) ! i = 1"
      then obtain i where i: "Suc i < length (x # y # zs)"
        "(x # y # zs) ! Suc i - (x # y # zs) ! i = 1" by blast
      with False obtain j where "i = Suc j" by (cases i) auto
      with i show "\<exists>i. Suc i < length (y # zs) \<and> (y # zs) ! Suc i - (y # zs) ! i = 1"
        by auto
    next
      assume "\<exists>i. Suc i < length (y # zs) \<and> (y # zs) ! Suc i - (y # zs) ! i = 1"
      then obtain i where "Suc i < length (y # zs)" "(y # zs) ! Suc i - (y # zs) ! i = 1"
        by blast
      then have "Suc (Suc i) < length (x # y # zs)
          \<and> (x # y # zs) ! Suc (Suc i) - (x # y # zs) ! Suc i = 1" by simp
      then show "\<exists>i. Suc i < length (x # y # zs) \<and> (x # y # zs) ! Suc i - (x # y # zs) ! i = 1"
        by blast
    qed
    with False 1 show ?thesis by simp
  qed
qed simp_all

section \<open>Evaluation on concrete streams\<close>

lemma upto_1_33: "[1..33::int] = [1,2,3,4,5,6,7,8,9,10,11,12,13,14,15,16,17,18,19,20,21,22,23,24,25,26,27,28,29,30,31,32,33]"
  by (simp add: upto.simps)

lemma sample_pool_pair: "sample_pool pool k g = (fst (sample_pool pool k g), sdrop k g)"
  by (simp add: prod_eq_iff sample_pool_rng)

lemma fst_sample_pool_numeral:
  "fst (sample_pool pool (numeral n) g) =
     pool ! (shd g mod length pool)
       # fst (sample_pool (take (shd g mod length pool) pool @ drop (Suc (shd g mod length pool)) pool)
            (pred_numeral n) (stl g))"
  by (simp add: numeral_eq_Suc randbelow_def split_beta)

lemma sdrop_numeral: "sdrop (numeral n) s = sdrop (pred_numeral n) (stl s)"
  by (simp add: numeral_eq_Suc)

lemma for_range_numeral:
  "for_range (numeral n) body recs g =
     (case body g of
        None \<Rightarrow> None
      | Some (Inl e) \<Rightarrow> Some (Inl e)
      | Some (Inr (r, g')) \<Rightarrow> for_range (pred_numeral n) body (recs @ [r]) g')"
  by (simp add: numeral_eq_Suc)

lemmas sample_eval = fst_sample_pool_numeral randbelow_def sdrop_numeral

lemma sample_const_0: "sample_pool [1..33] 6 (sconst 0) = ([1,2,3,4,5,6], sconst 0)"
  by (subst sample_pool_pair) (simp add: upto_1_33 sample_eval)

lemma sample_const_19: "sample_pool [1..33] 6 (sconst 19) = ([20,21,22,23,24,25], sconst 19)"
  by (subst sample_pool_pair) (simp add: upto_1_33 sample_eval)

lemma sample_even_draws: "sample_pool [1..33] 6 (0 ## 2 ## 4 ## 6 ## 8 ## 10 ## g) = ([1,4,7,10,13,16], g)"
  by (subst sample_pool_pair) (simp add: upto_1_33 sample_eval)

section \<open>The reject-sampling strategies\<close>

lemma py_randint_1_16: "py_randint 1 16 g = Inr (1 + int (shd g mod 16), stl g)"
  by (simp add: py_randint_def randbelow_def)

lemma sum_optimized_one_Inr:
  assumes "sum_optimized_one g = Some (Inr (r, g'))"
  shows "80 \<le> sum_list (red r) \<and> sum_list (red r) \<le> 140 \<and> valid_reds (red r)"
proof -
  from assms obtain res where res: "sum_optimized_reds g = Some res"
    by (auto simp: sum_optimized_one_def split: option.splits)
  from sum_optimized_reds_sum [OF res] assms res show ?thesis
    by (auto simp: sum_optimized_one_def py_randint_1_16 split: sum.splits)
qed

lemma no_consecutive_one_Inr:
  assumes "no_consecutive_one g = Some (Inr (r, g'))"
  shows "\<not> has_consecutive (red r) \<and> valid_reds (red r)"
proof -
  from assms obtain res where res: "no_consecutive_reds g = Some res"
    by (auto simp: no_consecutive_one_def split: option.splits)
  from no_consecutive_reds_ok [OF res] assms res show ?thesis
    by (auto simp: no_consecutive_one_def py_randint_1_16 split: sum.splits)
qed

lemma sum_optimized_19:
  "sum_optimized_reds (sconst 19) = Some (Inr ([20,21,22,23,24,25], sconst 19))"
  by (subst sum_optimized_reds.simps) (simp add: py_sample_def sample_const_19)

lemma no_consecutive_even_draws:
  "no_consecutive_reds (0 ## 2 ## 4 ## 6 ## 8 ## 10 ## g) = Some (Inr ([1,4,7,10,13,16], g))"
  by (subst no_consecutive_reds.simps) (simp add: py_sample_def sample_even_draws)

lemma sum_optimized_run:
  "sum_optimized [] [] 2 (sconst 19) =
     Some (Inr ([\<lparr>red = [20,21,22,23,24,25], blue = 4\<rparr>,
                 \<lparr>red = [20,21,22,23,24,25], blue = 4\<rparr>], sconst 19))"
  by (simp add: sum_optimized_def for_range_numeral sum_optimized_one_def sum_optimized_19
      py_randint_1_16)

lemma no_consecutive_run:
  "no_consecutive [] [] 1 (0 ## 2 ## 4 ## 6 ## 8 ## 10 ## sconst 6) =
     Some (Inr ([\<lparr>red = [1,4,7,10,13,16], blue = 7\<rparr>], sconst 6))"
  by (simp add: no_consecutive_def no_consecutive_one_def no_consecutive_even_draws
      py_randint_1_16)

text \<open>
  Claim C6. Whenever the sum-optimized strategy returns, for any tables, count and
  random stream, the red numbers of every recommendation it returns add up to a value
  between 80 and 140, both included.
\<close>

theorem sum_optimized_sum_in_range:
  assumes "sum_optimized red_freq blue_freq cnt g = Some (Inr (recs, g'))"
  shows "\<forall>r\<in>set recs. 80 \<le> sum_list (red r) \<and> sum_list (red r) \<le> 140"
proof -
  have "for_range cnt sum_optimized_one [] g = Some (Inr (recs, g'))"
    using assms by (simp add: sum_optimized_def)
  from for_range_inv [where P = "\<lambda>r. 80 \<le> sum_list (red r) \<and> sum_list (red r) \<le> 140", OF _ this]
  show ?thesis using sum_optimized_one_Inr by simp
qed

theorem sum_optimized_sum_in_range_witness:
  "sum_optimized [] [] 2 (sconst 19) =
     Some (Inr ([\<lparr>red = [20,21,22,23,24,25], blue = 4\<rparr>,
                 \<lparr>red = [20,21,22,23,24,25], blue = 4\<rparr>], sconst 19))
   \<and> list_all (\<lambda>r. 80 \<le> sum_list (red r) \<and> sum_list (red r) \<le> 140)
        [\<lparr>red = [20,21,22,23,24,25], blue = 4\<rparr>, \<lparr>red = [20,21,22,23,24,25], blue = 4\<rparr>]"
  using sum_optimized_run sum_optimized_sum_in_range [OF sum_optimized_run]
  by (simp add: list_all_iff)

text \<open>
  Claim C7. Whenever the no-consecutive strategy returns, for any tables, count and
  random stream, the red numbers of every recommendation it returns are in ascending
  order and no two neighbours among them differ by exactly 1.
\<close>

theorem no_consecutive_no_adjacent:
  assumes "no_consecutive red_freq blue_freq cnt g = Some (Inr (recs, g'))"
  shows "\<forall>r\<in>set recs. sorted (red r)
           \<and> (\<forall>i. Suc i < length (red r) \<longrightarrow> red r ! Suc i - red r ! i \<noteq> 1)"
proof -
  have "for_range cnt no_consecutive_one [] g = Some (Inr (recs, g'))"
    using assms by (simp add: no_consecutive_def)
  from for_range_inv [where P = "\<lambda>r. \<not> has_consecutive (red r) \<and> valid_reds (red r)", OF _ this]
  have "\<forall>r\<in>set recs. \<not> has_consecutive (red r) \<and> valid_reds (red r)"
    using no_consecutive_one_Inr by simp
  then show ?thesis by (simp add: has_consecutive_iff valid_reds_def)
qed

theorem no_consecutive_no_adjacent_witness:
  "no_consecutive [] [] 1 (0 ## 2 ## 4 ## 6 ## 8 ## 10 ## sconst 6) =
     Some (Inr ([\<lparr>red = [1,4,7,10,13,16], blue = 7\<rparr>], sconst 6))
   \<and> sorted [1,4,7,10,13,16 :: int]
   \<and> list_all (\<lambda>i. [1,4,7,10,13,16 :: int] ! Suc i - [1,4,7,10,13,16] ! i \<noteq> 1) [0..<5]"
proof -
  from no_consecutive_no_adjacent [OF no_consecutive_run]
  have "sorted [1,4,7,10,13,16 :: int]"
    and "\<forall>i. Suc i < 6 \<longrightarrow> [1,4,7,10,13,16 :: int] ! Suc i - [1,4,7,10,13,16] ! i \<noteq> 1"
    by simp_all
  then show ?thesis
    using no_consecutive_run by (simp add: list_all_iff)
qed

section \<open>The attempts of the reject-sampling loops\<close>

lemma py_sample_attempt:
  "py_sample [1..33] 6 g = Inr (fst (sample_pool [1..33] 6 g), sdrop 6 g)"
  by (simp add: py_sample_def prod_eq_iff sample_pool_rng)

lemma attempt_0: "attempt 0 g = sort (fst (sample_pool [1..33] 6 g))"
  by (simp add: attempt_def)

lemma attempt_Suc: "attempt (Suc k) g = attempt k (sdrop 6 g)"
  by (simp add: attempt_def sdrop_add)

lemma sum_optimized_reds_step:
  "sum_optimized_reds g =
     (if 80 \<le> sum_list (attempt 0 g) \<and> sum_list (attempt 0 g) \<le> 140
      then Some (Inr (attempt 0 g, sdrop 6 g))
      else sum_optimized_reds (sdrop 6 g))"
  by (subst sum_optimized_reds.simps) (simp add: py_sample_attempt attempt_0)

lemma no_consecutive_reds_step:
  "no_consecutive_reds g =
     (if \<not> has_consecutive (attempt 0 g)
      then Some (Inr (attempt 0 g, sdrop 6 g))
      else no_consecutive_reds (sdrop 6 g))"
  by (subst no_consecutive_reds.simps) (simp add: py_sample_attempt attempt_0)

lemma sum_optimized_reds_returns:
  "80 \<le> sum_list (attempt k g) \<and> sum_list (attempt k g) \<le> 140
     \<Longrightarrow> sum_optimized_reds g \<noteq> None"
proof (induction k arbitrary: g)
  case 0
  then show ?case by (subst sum_optimized_reds_step) simp
next
  case (Suc k)
  then have "sum_optimized_reds (sdrop 6 g) \<noteq> None"
    by (simp add: attempt_Suc)
  then show ?case by (subst sum_optimized_reds_step) simp
qed

lemma no_consecutive_reds_returns:
  "\<not> has_consecutive (attempt k g) \<Longrightarrow> no_consecutive_reds g \<noteq> None"
proof (induction k arbitrary: g)
  case 0
  then show ?case by (subst no_consecutive_reds_step) simp
next
  case (Suc k)
  then have "no_consecutive_reds (sdrop 6 g) \<noteq> None"
    by (simp add: attempt_Suc)
  then show ?case by (subst no_consecutive_reds_step) simp
qed

lemma sum_optimized_reds_accepted:
  assumes "sum_optimized_reds g = Some res"
  shows "\<exists>k. 80 \<le> sum_list (attempt k g) \<and> sum_list (attempt k g) \<le> 140"
  using assms
proof (induct rule: sum_optimized_reds.raw_induct)
  case (1 f g res)
  show ?case
  proof (cases "80 \<le> sum_list (attempt 0 g) \<and> sum_list (attempt 0 g) \<le> 140")
    case True
    then show ?thesis by blast
  next
    case False
    with 1(2) have a: "f (sdrop 6 g) = Some res"
      by (auto simp: py_sample_attempt attempt_0 split: if_splits)
    from 1(3) False have "sum_optimized_reds (sdrop 6 g) = Some res"
      by (subst (asm) sum_optimized_reds_step) simp
    with a have "\<exists>k. 80 \<le> sum_list (attempt k (sdrop 6 g)) \<and> sum_list (attempt k (sdrop 6 g)) \<le> 140"
      by (rule 1(1))
    then obtain k where "80 \<le> sum_list (attempt (Suc k) g) \<and> sum_list (attempt (Suc k) g) \<le> 140"
      by (auto simp: attempt_Suc)
    then show ?thesis by blast
  qed
qed (rule assms)

lemma no_consecutive_reds_accepted:
  assumes "no_consecutive_reds g = Some res"
  shows "\<exists>k. \<not> has_consecutive (attempt k g)"
  using assms
proof (induct rule: no_consecutive_reds.raw_induct)
  case (1 f g res)
  show ?case
  proof (cases "has_consecutive (attempt 0 g)")
    case False
    then show ?thesis by blast
  next
    case True
    with 1(2) have a: "f (sdrop 6 g) = Some res"
      by (simp add: py_sample_attempt attempt_0)
    from 1(3) True have "no_consecutive_reds (sdrop 6 g) = Some res"
      by (subst (asm) no_consecutive_reds_step) simp
    with a have "\<exists>k. \<not> has_consecutive (attempt k (sdrop 6 g))"
      by (rule 1(1))
    then obtain k where "\<not> has_consecutive (attempt (Suc k) g)"
      by (auto simp: attempt_Suc)
    then show ?thesis by blast
  qed
qed (rule assms)

lemma sum_optimized_reds_iff:
  "sum_optimized_reds g \<noteq> None
     \<longleftrightarrow> (\<exists>k. 80 \<le> sum_list (attempt k g) \<and> sum_list (attempt k g) \<le> 140)"
  using sum_optimized_reds_returns sum_optimized_reds_accepted by blast

lemma no_consecutive_reds_iff:
  "no_consecutive_reds g \<noteq> None \<longleftrightarrow> (\<exists>k. \<not> has_consecutive (attempt k g))"
  using no_consecutive_reds_returns no_consecutive_reds_accepted by blast

lemma sum_optimized_one_None: "sum_optimized_one g = None \<longleftrightarrow> sum_optimized_reds g = None"
  by (simp add: sum_optimized_one_def py_randint_1_16 split: option.splits sum.splits)

lemma no_consecutive_one_None: "no_consecutive_one g = None \<longleftrightarrow> no_consecutive_reds g = None"
  by (simp add: no_consecutive_one_def py_randint_1_16 split: option.splits sum.splits)

lemma for_range_Suc_None: "body g = None \<Longrightarrow> for_range (Suc n) body recs g = None"
  by simp

lemma for_range_1_None: "for_range (Suc 0) body recs g = None \<longleftrightarrow> body g = None"
  by (simp split: option.splits sum.splits)

lemma attempt_const_0: "attempt k (sconst 0) = [1,2,3,4,5,6]"
  by (simp add: attempt_def sample_const_0)

lemma sum_optimized_one_returns:
  "returns (sum_optimized_one g) \<longleftrightarrow> (\<exists>k. sum_accepted (attempt k g))"
proof (cases "sum_optimized_reds g")
  case None
  then show ?thesis
    using sum_optimized_reds_iff [of g]
    by (simp add: returns_def sum_optimized_one_def sum_accepted_def)
next
  case (Some res)
  with sum_optimized_reds_sum [OF Some] sum_optimized_reds_iff [of g] show ?thesis
    by (auto simp: returns_def sum_optimized_one_def sum_accepted_def py_randint_1_16
        split: sum.splits)
qed

lemma no_consecutive_one_returns:
  "returns (no_consecutive_one g) \<longleftrightarrow> (\<exists>k. \<not> has_consecutive (attempt k g))"
proof (cases "no_consecutive_reds g")
  case None
  then show ?thesis
    using no_consecutive_reds_iff [of g]
    by (simp add: returns_def no_consecutive_one_def)
next
  case (Some res)
  with no_consecutive_reds_ok [OF Some] no_consecutive_reds_iff [of g] show ?thesis
    by (auto simp: returns_def no_consecutive_one_def py_randint_1_16 split: sum.splits)
qed

lemma for_range_one_returns: "returns (for_range 1 body [] g) \<longleftrightarrow> returns (body g)"
  by (simp add: returns_def One_nat_def [symmetric] del: One_nat_def)
     (simp add: returns_def split: option.splits sum.splits)

lemma for_range_returns_first:
  "0 < n \<Longrightarrow> returns (for_range n body recs g) \<Longrightarrow> returns (body g)"
  by (cases n) (auto simp: returns_def split: option.splits sum.splits)

lemma sample_six_zeros:
  "sample_pool [1..33] 6 (0 ## 0 ## 0 ## 0 ## 0 ## 0 ## g) = ([1,2,3,4,5,6], g)"
  by (subst sample_pool_pair) (simp add: upto_1_33 sample_eval)

lemma sdrop_zeros:
  "k \<le> B \<Longrightarrow> sdrop (6 * k) (replicate (6 * B) 0 @- s) = replicate (6 * (B - k)) 0 @- s"
  by (simp add: sdrop_shift diff_mult_distrib2)

lemma attempt_zeros_rejected:
  assumes "k < B"
  shows "attempt k (replicate (6 * B) 0 @- s) = [1,2,3,4,5,6]"
proof -
  from assms obtain m where m: "B - k = Suc m"
    by (metis Suc_diff_Suc)
  have "replicate (6 * Suc m) (0::nat) = 0 # 0 # 0 # 0 # 0 # 0 # replicate (6 * m) 0"
    by (simp add: numeral_eq_Suc)
  then show ?thesis
    using assms by (simp add: attempt_def sdrop_zeros m sample_six_zeros)
qed

lemma attempt_after_zeros: "attempt B (replicate (6 * B) 0 @- s) = attempt 0 s"
  by (simp add: attempt_def sdrop_zeros)

lemma sum_optimized_stalls: "sum_optimized [] [] 1 (sconst 0) = None"
proof -
  have "\<not> (\<exists>k. 80 \<le> sum_list (attempt k (sconst 0)) \<and> sum_list (attempt k (sconst 0)) \<le> 140)"
    by (simp add: attempt_const_0)
  then have "sum_optimized_reds (sconst 0) = None"
    using sum_optimized_reds_iff [of "sconst 0"] by blast
  then show ?thesis
    by (simp add: sum_optimized_def sum_optimized_one_def One_nat_def [symmetric] del: One_nat_def)
      (simp add: sum_optimized_one_def)
qed

lemma no_consecutive_stalls: "no_consecutive [] [] 1 (sconst 0) = None"
proof -
  have "\<not> (\<exists>k. \<not> has_consecutive (attempt k (sconst 0)))"
    by (simp add: attempt_const_0)
  then have "no_consecutive_reds (sconst 0) = None"
    using no_consecutive_reds_iff [of "sconst 0"] by blast
  then show ?thesis
    by (simp add: no_consecutive_def no_consecutive_one_def One_nat_def [symmetric] del: One_nat_def)
      (simp add: no_consecutive_one_def)
qed

text \<open>
  Against claim C4 as stated: on the stream of draws that are all 0 every sample is
  1, ..., 6, which both loops reject, so neither strategy ever returns.
\<close>

theorem reject_sampling_stalls_counterexample:
  "sum_optimized [] [] 1 (sconst 0) = None \<and> no_consecutive [] [] 1 (sconst 0) = None"
  using sum_optimized_stalls no_consecutive_stalls by simp

text \<open>
  Claim C4, amended. Neither sum-optimized nor no-consecutive caps its sampling
  attempts: one recommendation is returned exactly when some attempt on the random
  stream is accepted, \<open>N \<ge> 1\<close> recommendations are returned only if some attempt is
  accepted, and for every bound \<open>B\<close> there is a stream on which the strategy returns
  after its first \<open>B\<close> attempts were all rejected.
\<close>

theorem reject_sampling_unbounded:
  "(returns (sum_optimized red_freq blue_freq 1 g) \<longleftrightarrow> (\<exists>k. sum_accepted (attempt k g)))
   \<and> (returns (no_consecutive red_freq blue_freq 1 g)
        \<longleftrightarrow> (\<exists>k. \<not> has_consecutive (attempt k g)))
   \<and> (0 < cnt \<and> returns (sum_optimized red_freq blue_freq cnt g)
        \<longrightarrow> (\<exists>k. sum_accepted (attempt k g)))
   \<and> (0 < cnt \<and> returns (no_consecutive red_freq blue_freq cnt g)
        \<longrightarrow> (\<exists>k. \<not> has_consecutive (attempt k g)))
   \<and> (\<forall>B. \<exists>g. returns (sum_optimized red_freq blue_freq 1 g)
          \<and> list_all (\<lambda>k. \<not> sum_accepted (attempt k g)) [0..<B])
   \<and> (\<forall>B. \<exists>g. returns (no_consecutive red_freq blue_freq 1 g)
          \<and> list_all (\<lambda>k. has_consecutive (attempt k g)) [0..<B])"
proof (intro conjI allI impI)
  show "returns (sum_optimized red_freq blue_freq 1 g) \<longleftrightarrow> (\<exists>k. sum_accepted (attempt k g))"
    by (simp only: sum_optimized_def for_range_one_returns sum_optimized_one_returns)
  show "returns (no_consecutive red_freq blue_freq 1 g)
          \<longleftrightarrow> (\<exists>k. \<not> has_consecutive (attempt k g))"
    by (simp only: no_consecutive_def for_range_one_returns no_consecutive_one_returns)
next
  assume "0 < cnt \<and> returns (sum_optimized red_freq blue_freq cnt g)"
  then have "returns (sum_optimized_one g)"
    using for_range_returns_first [of cnt sum_optimized_one "[]" g]
    by (simp add: sum_optimized_def)
  then show "\<exists>k. sum_accepted (attempt k g)"
    by (simp only: sum_optimized_one_returns)
next
  assume "0 < cnt \<and> returns (no_consecutive red_freq blue_freq cnt g)"
  then have "returns (no_consecutive_one g)"
    using for_range_returns_first [of cnt no_consecutive_one "[]" g]
    by (simp add: no_consecutive_def)
  then show "\<exists>k. \<not> has_consecutive (attempt k g)"
    by (simp only: no_consecutive_one_returns)
next
  fix B
  let ?g = "replicate (6 * B) 0 @- sconst 19"
  have "sum_accepted (attempt B ?g)"
    by (simp add: attempt_after_zeros attempt_0 sample_const_19 sum_accepted_def)
  then have "returns (sum_optimized red_freq blue_freq 1 ?g)"
    unfolding sum_optimized_def for_range_one_returns sum_optimized_one_returns by blast
  moreover have "list_all (\<lambda>k. \<not> sum_accepted (attempt k ?g)) [0..<B]"
    by (simp add: list_all_iff attempt_zeros_rejected sum_accepted_def)
  ultimately show "\<exists>g. returns (sum_optimized red_freq blue_freq 1 g)
      \<and> list_all (\<lambda>k. \<not> sum_accepted (attempt k g)) [0..<B]"
    by blast
next
  fix B
  let ?g = "replicate (6 * B) 0 @- (0 ## 2 ## 4 ## 6 ## 8 ## 10 ## sconst 0)"
  have "\<not> has_consecutive (attempt B ?g)"
    by (simp add: attempt_after_zeros attempt_0 sample_even_draws)
  then have "returns (no_consecutive red_freq blue_freq 1 ?g)"
    unfolding no_consecutive_def for_range_one_returns no_consecutive_one_returns by blast
  moreover have "list_all (\<lambda>k. has_consecutive (attempt k ?g)) [0..<B]"
    by (simp add: list_all_iff attempt_zeros_rejected)
  ultimately show "\<exists>g. returns (no_consecutive red_freq blue_freq 1 g)
      \<and> list_all (\<lambda>k. has_consecutive (attempt k g)) [0..<B]"
    by blast
qed

theorem reject_sampling_unbounded_witness:
  "0 < (2::nat) \<and> returns (sum_optimized [] [] 2 (sconst 19))
   \<and> (\<exists>k. sum_accepted (attempt k (sconst 19)))
   \<and> 0 < (1::nat) \<and> returns (no_consecutive [] [] 1 (0 ## 2 ## 4 ## 6 ## 8 ## 10 ## sconst 6))
   \<and> (\<exists>k. \<not> has_consecutive (attempt k (0 ## 2 ## 4 ## 6 ## 8 ## 10 ## sconst 6)))"
proof -
  have h1: "0 < (2::nat) \<and> returns (sum_optimized [] [] 2 (sconst 19))"
    by (simp add: sum_optimized_run returns_def)
  have h2: "0 < (1::nat)
      \<and> returns (no_consecutive [] [] 1 (0 ## 2 ## 4 ## 6 ## 8 ## 10 ## sconst 6))"
    using no_consecutive_run by (simp add: returns_def)
  from h1 reject_sampling_unbounded [of "[]" "[]" "sconst 19" 2]
  have "\<exists>k. sum_accepted (attempt k (sconst 19))"
    by blast
  moreover from h2
    reject_sampling_unbounded [of "[]" "[]" "0 ## 2 ## 4 ## 6 ## 8 ## 10 ## sconst 6" 1]
  have "\<exists>k. \<not> has_consecutive (attempt k (0 ## 2 ## 4 ## 6 ## 8 ## 10 ## sconst 6))"
    by blast
  ultimately show ?thesis
    using h1 h2 by blast
qed

section \<open>Stable sorting and the pure-frequency strategy\<close>

lemma precedes_filter:
  "P a \<Longrightarrow> P b \<Longrightarrow> precedes a b (filter P xs) = precedes a b xs"
  unfolding precedes_def by (induction xs) auto

lemma precedes_take_drop:
  assumes "distinct xs" "p \<in> set (take n xs)" "q \<in> set (drop n xs)"
  shows "precedes p q xs"
proof -
  define A where "A = take n xs"
  define B where "B = drop n xs"
  have xs: "xs = A @ B" by (simp add: A_def B_def)
  have "set A \<inter> set B = {}"
    unfolding A_def B_def using assms(1) by (simp add: set_take_disj_set_drop_if_distinct)
  then have "q \<notin> set A" using assms(3) by (auto simp: B_def)
  then have "takeWhile (\<lambda>x. x \<noteq> q) (A @ B) = A @ takeWhile (\<lambda>x. x \<noteq> q) B"
    by (intro takeWhile_append2) auto
  moreover have "p \<in> set A" using assms(2) by (simp add: A_def)
  ultimately have "p \<in> set (takeWhile (\<lambda>x. x \<noteq> q) (A @ B))" by simp
  then show ?thesis unfolding precedes_def xs .
qed

lemma sorted_take_drop:
  assumes "sorted (map k xs)" "p \<in> set (take n xs)" "q \<in> set (drop n xs)"
  shows "k p \<le> k q"
proof -
  have "sorted (map k (take n xs) @ map k (drop n xs))"
    using assms(1) by (simp flip: map_append)
  then show ?thesis using assms(2,3) by (auto simp: sorted_append)
qed

lemma sort_key_take_drop:
  assumes "distinct xs" "p \<in> set (take n (sort_key k xs))" "q \<in> set (drop n (sort_key k xs))"
  shows "k p < k q \<or> (k p = k q \<and> precedes p q xs)"
proof -
  have le: "k p \<le> k q"
    using assms(2,3) by (rule sorted_take_drop [OF sorted_sort_key])
  show ?thesis
  proof (cases "k p = k q")
    case False
    with le show ?thesis by simp
  next
    case True
    have "precedes p q (sort_key k xs)"
      using assms by (intro precedes_take_drop) simp_all
    then have "precedes p q (filter (\<lambda>y. k y = k p) (sort_key k xs))"
      using True by (simp add: precedes_filter)
    then have "precedes p q (filter (\<lambda>y. k y = k p) xs)"
      by (simp add: sort_key_stable)
    then have "precedes p q xs"
      using True by (simp add: precedes_filter)
    with True show ?thesis by simp
  qed
qed

lemma precedes_sorted_keys:
  assumes "sorted (map fst xs)" "distinct (map fst xs)" "precedes p q xs" "q \<in> set xs"
  shows "fst p < fst q"
proof -
  let ?A = "takeWhile (\<lambda>x. x \<noteq> q) xs" and ?B = "dropWhile (\<lambda>x. x \<noteq> q) xs"
  have xs: "xs = ?A @ ?B" by simp
  have p: "p \<in> set ?A" using assms(3) by (simp add: precedes_def)
  have "?B \<noteq> []" using assms(4) by (simp add: dropWhile_eq_Nil_conv)
  then have "hd ?B = q" using hd_dropWhile [of "\<lambda>x. x \<noteq> q" xs] by simp
  with \<open>?B \<noteq> []\<close> have q: "q \<in> set ?B" by (metis hd_in_set)
  have "sorted (map fst ?A @ map fst ?B)" "distinct (map fst ?A @ map fst ?B)"
    using assms(1,2) xs by (metis map_append)+
  with p q have "fst p \<le> fst q" "fst p \<noteq> fst q"
    by (auto simp: sorted_append)
  then show ?thesis by simp
qed

lemma distinct_fst: "distinct (map fst xs) \<Longrightarrow> distinct xs"
  by (simp add: distinct_map)

lemma fst_in_take:
  assumes "distinct (map fst xs)" "(a, fa) \<in> set xs"
  shows "a \<in> fst ` set (take n xs) \<longleftrightarrow> (a, fa) \<in> set (take n xs)"
proof
  assume "a \<in> fst ` set (take n xs)"
  then obtain fb where b: "(a, fb) \<in> set (take n xs)" by auto
  then have "(a, fb) \<in> set xs" by (rule in_set_takeD)
  with assms have "fb = fa" by (meson eq_key_imp_eq_value)
  with b show "(a, fa) \<in> set (take n xs)" by simp
next
  assume "(a, fa) \<in> set (take n xs)"
  then show "a \<in> fst ` set (take n xs)" by force
qed

lemma for_range_const:
  "for_range n (\<lambda>g. Some (Inr (r, g))) recs g = Some (Inr (recs @ replicate n r, g))"
  by (induction n arbitrary: recs) (simp_all add: replicate_app_Cons_same)

lemma distinct_fst_sort_key:
  "distinct (map fst (sort_key k xs)) = distinct (map fst xs)"
proof -
  have "mset (map fst (sort_key k xs)) = mset (map fst xs)" by simp
  then show ?thesis by (rule mset_eq_imp_distinct_iff)
qed

lemma top_of_sort_key:
  fixes xs :: freq_table
  assumes d: "distinct (map fst xs)"
    and a: "(a, fa) \<in> set xs" and b: "(b, fb) \<in> set xs"
    and ain: "a \<in> fst ` set (take n (sort_key (\<lambda>x. - snd x) xs))"
    and bout: "b \<notin> fst ` set (take n (sort_key (\<lambda>x. - snd x) xs))"
  shows "fb < fa \<or> (fb = fa \<and> precedes (a, fa) (b, fb) xs)"
proof -
  let ?S = "sort_key (\<lambda>x. - snd x) xs"
  have dS: "distinct (map fst ?S)" using d by (simp add: distinct_fst_sort_key)
  have "(a, fa) \<in> set ?S" "(b, fb) \<in> set ?S" using a b by simp_all
  with dS ain bout have p: "(a, fa) \<in> set (take n ?S)" and "(b, fb) \<notin> set (take n ?S)"
    by (simp_all add: fst_in_take)
  with \<open>(b, fb) \<in> set ?S\<close> have q: "(b, fb) \<in> set (drop n ?S)"
    by (metis Un_iff append_take_drop_id set_append)
  from sort_key_take_drop [OF distinct_fst [OF d] p q] show ?thesis by auto
qed

text \<open>
  Claim C3, amended. On tables with distinct keys, at least six red keys and a
  non-empty blue table, pure-frequency returns the same recommendation \<open>N\<close> times,
  the same for every \<open>N\<close> and every state of the random generator, which it leaves
  untouched, so repeated calls agree. Its red numbers are six, sorted and pairwise
  different, and every selected number has a higher
  count than every number left out, or the same count and an earlier place in the
  table: ties are broken by insertion order, which is ascending number when the table
  lists its keys in ascending order. The blue number has the highest count, and among
  the numbers of that count it is the first of the table.
\<close>

theorem pure_frequency_top:
  assumes dr: "distinct (map fst red_freq)"
    and db: "distinct (map fst blue_freq)"
    and six: "6 \<le> length red_freq"
    and ne: "blue_freq \<noteq> []"
  shows "\<exists>top_reds top_blue top_count.
      (\<forall>cnt g. pure_frequency red_freq blue_freq cnt g
        = Some (Inr (replicate cnt \<lparr>red = top_reds, blue = top_blue\<rparr>, g)))
    \<and> sorted top_reds \<and> distinct top_reds \<and> length top_reds = 6
    \<and> set top_reds \<subseteq> fst ` set red_freq
    \<and> (\<forall>(a, fa)\<in>set red_freq. \<forall>(b, fb)\<in>set red_freq.
          a \<in> set top_reds \<and> b \<notin> set top_reds
            \<longrightarrow> fb < fa \<or> (fb = fa \<and> precedes (a, fa) (b, fb) red_freq))
    \<and> (sorted (map fst red_freq) \<longrightarrow>
         (\<forall>(a, fa)\<in>set red_freq. \<forall>(b, fb)\<in>set red_freq.
            a \<in> set top_reds \<and> b \<notin> set top_reds \<longrightarrow> fb < fa \<or> (fb = fa \<and> a < b)))
    \<and> (top_blue, top_count) \<in> set blue_freq
    \<and> (\<forall>(c, fc)\<in>set blue_freq.
          fc < top_count
          \<or> (fc = top_count
               \<and> (c = top_blue \<or> precedes (top_blue, top_count) (c, fc) blue_freq)))"
proof -
  let ?S = "sorted_desc red_freq" and ?B = "sorted_desc blue_freq"
  define top_reds where "top_reds = sort (map fst (take 6 ?S))"
  have set_top: "set top_reds = fst ` set (take 6 ?S)"
    by (simp add: top_reds_def)
  from ne have "?B \<noteq> []"
    by (metis length_0_conv length_sort sorted_desc_def)
  then obtain top_blue top_count rest where B: "?B = (top_blue, top_count) # rest"
    by (cases ?B) auto
  have run: "\<forall>cnt g. pure_frequency red_freq blue_freq cnt g
      = Some (Inr (replicate cnt \<lparr>red = top_reds, blue = top_blue\<rparr>, g))"
    by (simp add: pure_frequency_def item0_def B top_reds_def for_range_const)
  have "distinct (map fst ?S)"
    using dr by (simp add: sorted_desc_def distinct_fst_sort_key)
  then have "distinct (take 6 (map fst ?S))" by (rule distinct_take)
  then have dist: "distinct top_reds" by (simp add: top_reds_def take_map)
  have len: "length top_reds = 6"
    using six by (simp add: top_reds_def sorted_desc_def)
  have sub: "set top_reds \<subseteq> fst ` set red_freq"
  proof -
    have "set (take 6 ?S) \<subseteq> set ?S" by (rule set_take_subset)
    then show ?thesis by (auto simp: set_top sorted_desc_def)
  qed
  have top: "fb < fa \<or> (fb = fa \<and> precedes (a, fa) (b, fb) red_freq)"
    if "(a, fa) \<in> set red_freq" "(b, fb) \<in> set red_freq"
       "a \<in> set top_reds" "b \<notin> set top_reds" for a fa b fb
    using top_of_sort_key [OF dr that(1,2)] that(3,4)
    by (simp add: set_top sorted_desc_def)
  have asc: "fb < fa \<or> (fb = fa \<and> a < b)"
    if "sorted (map fst red_freq)" "(a, fa) \<in> set red_freq" "(b, fb) \<in> set red_freq"
       "a \<in> set top_reds" "b \<notin> set top_reds" for a fa b fb
    using top [OF that(2-5)] precedes_sorted_keys [OF that(1) dr _ that(3), of "(a, fa)"]
    by auto
  have mem: "(top_blue, top_count) \<in> set blue_freq"
  proof -
    have "(top_blue, top_count) \<in> set ?B" by (simp add: B)
    then show ?thesis by (simp add: sorted_desc_def)
  qed
  have blue: "fc < top_count
      \<or> (fc = top_count \<and> (c = top_blue \<or> precedes (top_blue, top_count) (c, fc) blue_freq))"
    if c: "(c, fc) \<in> set blue_freq" for c fc
  proof (cases "(c, fc) = (top_blue, top_count)")
    case True
    then show ?thesis by simp
  next
    case False
    have "(c, fc) \<in> set ?B" using c by (simp add: sorted_desc_def)
    with False B have q: "(c, fc) \<in> set (drop 1 (sort_key (\<lambda>x. - snd x) blue_freq))"
      by (auto simp: sorted_desc_def)
    have p: "(top_blue, top_count) \<in> set (take 1 (sort_key (\<lambda>x. - snd x) blue_freq))"
      using B by (simp add: sorted_desc_def)
    from sort_key_take_drop [OF distinct_fst [OF db] p q] show ?thesis by auto
  qed
  have srt: "sorted top_reds" by (simp add: top_reds_def)
  have c5: "\<forall>(a, fa)\<in>set red_freq. \<forall>(b, fb)\<in>set red_freq.
          a \<in> set top_reds \<and> b \<notin> set top_reds
            \<longrightarrow> fb < fa \<or> (fb = fa \<and> precedes (a, fa) (b, fb) red_freq)"
    using top by blast
  have c6: "sorted (map fst red_freq) \<longrightarrow>
         (\<forall>(a, fa)\<in>set red_freq. \<forall>(b, fb)\<in>set red_freq.
            a \<in> set top_reds \<and> b \<notin> set top_reds \<longrightarrow> fb < fa \<or> (fb = fa \<and> a < b))"
    using asc by blast
  have c8: "\<forall>(c, fc)\<in>set blue_freq.
          fc < top_count
          \<or> (fc = top_count
               \<and> (c = top_blue \<or> precedes (top_blue, top_count) (c, fc) blue_freq))"
    using blue by blast
  from run srt dist len sub c5 c6 mem c8 show ?thesis by blast
qed

lemma history_parsed:
  "parse_numbers (PyList [cache_record ''02,03,04,05,06,07'' ''01'',
                           cache_record ''01,08,09,10,11,12'' ''02''])
     = Inr ([2,3,4,5,6,7,1,8,9,10,11,12], [1,2])"
  by (simp add: parse_eval)

lemma history_analyzed:
  "analyze_frequency [2,3,4,5,6,7,1,8,9,10,11,12] [1,2]
     = ([(2,1),(3,1),(4,1),(5,1),(6,1),(7,1),(1,1),(8,1),(9,1),(10,1),(11,1),(12,1)],
        [(1,1),(2,1)])"
  by (simp add: analyze_frequency_def)

lemma pure_frequency_history:
  "pure_frequency [(2,1),(3,1),(4,1),(5,1),(6,1),(7,1),(1,1),(8,1),(9,1),(10,1),(11,1),(12,1)]
       [(1,1),(2,1)] 1 (sconst 0)
     = Some (Inr ([\<lparr>red = [2,3,4,5,6,7], blue = 1\<rparr>], sconst 0))"
  by (simp add: pure_frequency_def sorted_desc_def item0_def for_range_const)

lemma spec_top_reds_history:
  "spec_top_reds [(2,1),(3,1),(4,1),(5,1),(6,1),(7,1),(1,1),(8,1),(9,1),(10,1),(11,1),(12,1)]
     = [1,2,3,4,5,6]"
  by (simp add: spec_top_reds_def)

text \<open>
  Against claim C3 as stated: a history of two draws, the first \<open>02 ... 07\<close>, the
  second starting with \<open>01\<close>. All twelve numbers have count 1; pure-frequency returns
  2, ..., 7, the first six of the table, where ascending number gives 1, ..., 6.
\<close>

theorem pure_frequency_tie_counterexample:
  "parse_numbers (PyList [cache_record ''02,03,04,05,06,07'' ''01'',
                           cache_record ''01,08,09,10,11,12'' ''02''])
     = Inr ([2,3,4,5,6,7,1,8,9,10,11,12], [1,2])
   \<and> analyze_frequency [2,3,4,5,6,7,1,8,9,10,11,12] [1,2]
     = ([(2,1),(3,1),(4,1),(5,1),(6,1),(7,1),(1,1),(8,1),(9,1),(10,1),(11,1),(12,1)],
        [(1,1),(2,1)])
   \<and> generate (Member PURE_FREQUENCY)
       [(2,1),(3,1),(4,1),(5,1),(6,1),(7,1),(1,1),(8,1),(9,1),(10,1),(11,1),(12,1)]
       [(1,1),(2,1)] 1 (sconst 0)
     = Some (Inr ([\<lparr>red = [2,3,4,5,6,7], blue = 1\<rparr>], sconst 0))
   \<and> spec_top_reds
       [(2,1),(3,1),(4,1),(5,1),(6,1),(7,1),(1,1),(8,1),(9,1),(10,1),(11,1),(12,1)]
     = [1,2,3,4,5,6]
   \<and> [2,3,4,5,6,7] \<noteq> spec_top_reds
       [(2,1),(3,1),(4,1),(5,1),(6,1),(7,1),(1,1),(8,1),(9,1),(10,1),(11,1),(12,1)]"
  using history_parsed history_analyzed pure_frequency_history spec_top_reds_history
  by (simp add: generate_def)

lemma example_red_keys: "map fst example_red_freq = [1..33]"
proof -
  have "map fst (map (\<lambda>n. (n, 1::int)) [2..33]) = [2..33::int]"
    by (simp add: comp_def)
  moreover have "[1..33::int] = 1 # [2..33]"
    by (simp add: upto_rec1)
  ultimately show ?thesis by (simp add: example_red_freq_def)
qed

lemma example_top6:
  "take 6 (sorted_desc example_red_freq) = [(1,10),(2,1),(3,1),(4,1),(5,1),(6,1)]"
  by (simp add: sorted_desc_def example_red_freq_def upto.simps)

lemma pure_frequency_example:
  "pure_frequency example_red_freq example_blue_freq 1 (sconst 0)
     = Some (Inr ([\<lparr>red = [1,2,3,4,5,6], blue = 5\<rparr>], sconst 0))"
  by (simp add: pure_frequency_def example_top6 for_range_const)
     (simp add: sorted_desc_def item0_def example_blue_freq_def)

theorem pure_frequency_top_witness:
  "distinct (map fst example_red_freq) \<and> distinct (map fst example_blue_freq)
   \<and> 6 \<le> length example_red_freq \<and> example_blue_freq \<noteq> []
   \<and> (\<exists>top_reds top_blue.
        pure_frequency example_red_freq example_blue_freq 1 (sconst 0)
          = Some (Inr (replicate 1 \<lparr>red = top_reds, blue = top_blue\<rparr>, sconst 0))
        \<and> sorted top_reds \<and> distinct top_reds \<and> length top_reds = 6)
   \<and> pure_frequency example_red_freq example_blue_freq 1 (sconst 0)
       = Some (Inr ([\<lparr>red = [1,2,3,4,5,6], blue = 5\<rparr>], sconst 0))"
proof -
  have h1: "distinct (map fst example_red_freq)"
    by (simp add: example_red_keys)
  have h2: "distinct (map fst example_blue_freq)"
    by (simp add: example_blue_freq_def)
  have h3: "example_blue_freq \<noteq> []"
    by (simp add: example_blue_freq_def)
  have "length (map fst example_red_freq) = 33"
    unfolding example_red_keys by simp
  then have h4: "6 \<le> length example_red_freq"
    by simp
  from pure_frequency_top [OF h1 h2 h4 h3]
  have "\<exists>top_reds top_blue.
        pure_frequency example_red_freq example_blue_freq 1 (sconst 0)
          = Some (Inr (replicate 1 \<lparr>red = top_reds, blue = top_blue\<rparr>, sconst 0))
        \<and> sorted top_reds \<and> distinct top_reds \<and> length top_reds = 6"
    by blast
  with h1 h2 h3 h4 pure_frequency_example show ?thesis
    by blast
qed

section \<open>Sparse and empty frequency tables\<close>

lemma one_draw_parsed:
  "parse_numbers (PyList [cache_record ''01,02,03,04,05,06'' ''07''])
     = Inr ([1,2,3,4,5,6], [7])"
  by (simp add: parse_eval)

lemma one_draw_analyzed:
  "analyze_frequency [1,2,3,4,5,6] [7] = ([(1,1),(2,1),(3,1),(4,1),(5,1),(6,1)], [(7,1)])"
  by (simp add: analyze_frequency_def)

lemma sample_3_of_6:
  "sample_pool [1,2,3,4,5,6::int] 3 (sconst 0) = ([1,2,3], sconst 0)"
  by (subst sample_pool_pair) (simp add: sample_eval)

lemma hot_cold_one_draw:
  "hot_cold_balance_one [(1,1),(2,1),(3,1),(4,1),(5,1),(6,1)] [(7,1)] (sconst 0)
     = Some (Inr (\<lparr>red = [1,1,2,2,3,3], blue = 7\<rparr>, sconst 0))"
  by (simp add: hot_cold_balance_one_def sorted_desc_def sorted_asc_def py_sample_def
      sample_3_of_6 item0_def py_choice_def randbelow_def)

text \<open>
  Claim C1 fails on the code. A history of the single draw \<open>01 ... 06 + 07\<close> gives a red
  table of six keys of equal count; the ten hottest and the ten coldest items are then
  the same six, and when both samples pick 1, 2, 3 the recommendation repeats each of
  them: it does not have six distinct red numbers. Pure-frequency on a red table of
  fewer than six keys returns fewer than six red numbers.
\<close>

theorem hot_cold_balance_repeats_reds:
  "parse_numbers (PyList [cache_record ''01,02,03,04,05,06'' ''07''])
     = Inr ([1,2,3,4,5,6], [7])
   \<and> analyze_frequency [1,2,3,4,5,6] [7] = ([(1,1),(2,1),(3,1),(4,1),(5,1),(6,1)], [(7,1)])
   \<and> generate (Member HOT_COLD_BALANCE) [(1,1),(2,1),(3,1),(4,1),(5,1),(6,1)] [(7,1)] 1
        (sconst 0)
     = Some (Inr ([\<lparr>red = [1,1,2,2,3,3], blue = 7\<rparr>], sconst 0))
   \<and> \<not> distinct [1,1,2,2,3,3 :: int]
   \<and> generate (Member PURE_FREQUENCY) [] [(7,1)] 1 (sconst 0)
     = Some (Inr ([\<lparr>red = [], blue = 7\<rparr>], sconst 0))"
  using one_draw_parsed one_draw_analyzed hot_cold_one_draw
  by (simp add: generate_def hot_cold_balance_def pure_frequency_def sorted_desc_def item0_def)

text \<open>
  Claim C2 fails on the code. With both tables empty the pure-frequency strategy
  raises \<open>IndexError\<close> (it indexes the empty sorted list of blue items), and the
  hot-cold-balance strategy raises \<open>ValueError\<close> (it samples three of no items), for
  every random stream.
\<close>

theorem empty_tables_raise:
  "generate (Member PURE_FREQUENCY) [] [] cnt g = Some (Inl IndexError)
   \<and> generate (Member HOT_COLD_BALANCE) [] [] (Suc n) g = Some (Inl ValueError)"
  by (simp add: generate_def pure_frequency_def hot_cold_balance_def hot_cold_balance_one_def
      sorted_desc_def sorted_asc_def item0_def py_sample_def)

section \<open>The frequency-weighted strategy\<close>

lemma py_random_range: "0 \<le> fst (py_random g) \<and> fst (py_random g) < 1"
proof -
  have "shd g mod 2 ^ 53 < 2 ^ 53" by simp
  then have "(of_nat (shd g mod 2 ^ 53) :: rat) < of_nat (2 ^ 53)"
    by (rule of_nat_less_iff [THEN iffD2])
  then have "(of_nat (shd g mod 2 ^ 53) :: rat) < 2 ^ 53" by simp
  then show ?thesis by (simp add: py_random_def)
qed

lemma py_random_rng: "snd (py_random g) = stl g"
  by (simp add: py_random_def)

lemma py_uniform_jitter:
  "1 / 10 \<le> fst (py_uniform (1 / 10) 1 g) \<and> fst (py_uniform (1 / 10) 1 g) < 1"
  using py_random_range [of g] by (simp add: py_uniform_def split_beta)

lemma py_uniform_rng: "snd (py_uniform a b g) = stl g"
  by (simp add: py_uniform_def split_beta py_random_rng)

lemma red_weights_length: "length (fst (red_weights red_freq nums g)) = length nums"
  by (induction nums arbitrary: g) (simp_all add: split_beta)

lemma red_weights_rng: "snd (red_weights red_freq nums g) = sdrop (length nums) g"
  by (induction nums arbitrary: g) (simp_all add: split_beta py_uniform_rng)

lemma red_weights_nth:
  "i < length nums \<Longrightarrow>
     \<exists>u. 1 / 10 \<le> u \<and> u < 1
       \<and> fst (red_weights red_freq nums g) ! i = of_int (get_or red_freq (nums ! i) 1) + u"
proof (induction nums arbitrary: i g)
  case Nil
  then show ?case by simp
next
  case (Cons num nums)
  show ?case
  proof (cases i)
    case 0
    then show ?thesis
      using py_uniform_jitter [of g] by (auto simp: split_beta)
  next
    case (Suc j)
    with Cons.prems have "j < length nums" by simp
    from Cons.IH [OF this, of "snd (py_uniform (1 / 10) 1 g)"] Suc show ?thesis
      by (simp add: split_beta)
  qed
qed

lemma accumulate_length: "length (accumulate acc ws) = length ws"
  by (induction ws arbitrary: acc) simp_all

lemma accumulate_eq_Nil: "accumulate acc ws = [] \<longleftrightarrow> ws = []"
  by (cases ws) simp_all

lemma accumulate_last: "ws \<noteq> [] \<Longrightarrow> last (accumulate acc ws) = acc + sum_list ws"
proof (induction ws arbitrary: acc)
  case Nil
  then show ?case by simp
next
  case (Cons w ws)
  show ?case
  proof (cases "ws = []")
    case True
    then show ?thesis by simp
  next
    case False
    with Cons.IH [of "acc + w"] show ?thesis
      by (simp add: accumulate_eq_Nil add.assoc)
  qed
qed

lemma bisect_le: "bisect cum x hi \<le> hi"
proof -
  have "length (takeWhile (\<lambda>c. c \<le> x) (take hi cum)) \<le> length (take hi cum)"
    by (rule length_takeWhile_le)
  then show ?thesis by (simp add: bisect_def)
qed

lemma choices_picks_length: "length (fst (choices_picks population cum tot k g)) = k"
  by (induction k arbitrary: g) (simp_all add: split_beta)

lemma choices_picks_rng: "snd (choices_picks population cum tot k g) = sdrop k g"
  by (induction k arbitrary: g) (simp_all add: split_beta py_random_rng)

lemma choices_picks_set:
  "population \<noteq> [] \<Longrightarrow> set (fst (choices_picks population cum tot k g)) \<subseteq> set population"
proof (induction k arbitrary: g)
  case 0
  then show ?case by simp
next
  case (Suc k)
  have "bisect cum (fst (py_random g) * tot) (length population - 1) \<le> length population - 1"
    by (rule bisect_le)
  with Suc.prems have "bisect cum (fst (py_random g) * tot) (length population - 1) < length population"
    by (cases population) simp_all
  then have "population ! bisect cum (fst (py_random g) * tot) (length population - 1)
      \<in> set population"
    by (rule nth_mem)
  with Suc.IH [OF Suc.prems] show ?case
    by (simp add: split_beta)
qed

lemma py_choices_Inr:
  assumes "py_choices population weights k g = Inr (picks, g')"
  shows "length picks = k" "set picks \<subseteq> set population" "g' = sdrop k g"
proof -
  from assms have ne: "population \<noteq> []"
    and picks: "picks = fst (choices_picks population (accumulate 0 weights)
        (last (accumulate 0 weights)) k g)"
    and g': "g' = snd (choices_picks population (accumulate 0 weights)
        (last (accumulate 0 weights)) k g)"
    by (auto simp: py_choices_def Let_def split: if_splits)
  show "length picks = k" by (simp add: picks choices_picks_length)
  show "set picks \<subseteq> set population" unfolding picks using ne by (rule choices_picks_set)
  show "g' = sdrop k g" by (simp add: g' choices_picks_rng)
qed

lemma py_choices_positive:
  assumes "length weights = length population" "population \<noteq> []" "0 < sum_list weights"
  shows "\<exists>picks. py_choices population weights k g = Inr (picks, sdrop k g)"
proof -
  from assms(1,2) have "weights \<noteq> []" by auto
  then have "last (accumulate 0 weights) = sum_list weights"
    by (simp add: accumulate_last)
  with assms \<open>weights \<noteq> []\<close> show ?thesis
    by (auto simp: py_choices_def Let_def accumulate_length accumulate_eq_Nil prod_eq_iff
        choices_picks_rng)
qed

lemma py_randint_1_33: "py_randint 1 33 g = Inr (1 + int (shd g mod 33), stl g)"
  by (simp add: py_randint_def randbelow_def)

lemma fill_reds_step:
  "fill_reds selected_reds g =
     (if length selected_reds < 6 then
        (if 1 + int (shd g mod 33) \<notin> set selected_reds
         then fill_reds (sort (take 6 (selected_reds @ [1 + int (shd g mod 33)]))) (stl g)
         else fill_reds selected_reds (stl g))
      else Some (Inr (selected_reds, g)))"
  by (subst fill_reds.simps) (simp add: py_randint_1_33)

lemma candidate_shift:
  assumes "\<exists>i. x = 1 + int (stl g !! i mod 33)"
  shows "\<exists>i. x = 1 + int (g !! i mod 33)"
proof -
  from assms obtain i where "x = 1 + int (stl g !! i mod 33)" ..
  then have "x = 1 + int (g !! Suc i mod 33)" by simp
  then show ?thesis ..
qed

lemma fill_ok_skip:
  assumes "fill_ok sel (stl g) res"
  shows "fill_ok sel g res"
proof (cases res)
  case (Inl e)
  with assms show ?thesis by (simp add: fill_ok_def)
next
  case (Inr p)
  obtain reds g' where p: "p = (reds, g')" by (cases p)
  from assms have old: "\<forall>x\<in>set reds - set sel. \<exists>i. x = 1 + int (stl g !! i mod 33)"
    by (simp add: fill_ok_def Inr p)
  have "\<forall>x\<in>set reds - set sel. \<exists>i. x = 1 + int (g !! i mod 33)"
  proof
    fix x assume "x \<in> set reds - set sel"
    with old have "\<exists>i. x = 1 + int (stl g !! i mod 33)" ..
    then show "\<exists>i. x = 1 + int (g !! i mod 33)" by (rule candidate_shift)
  qed
  with assms show ?thesis by (simp add: fill_ok_def Inr p)
qed

lemma fill_ok_add:
  assumes len: "length sel < 6" and new: "c \<notin> set sel"
    and c: "c = 1 + int (shd g mod 33)"
    and ok: "fill_ok (sort (sel @ [c])) (stl g) res"
  shows "fill_ok sel g res"
proof (cases res)
  case (Inl e)
  with ok show ?thesis by (simp add: fill_ok_def)
next
  case (Inr p)
  obtain reds g' where p: "p = (reds, g')" by (cases p)
  from ok have l6: "6 \<le> length reds" and sub: "insert c (set sel) \<subseteq> set reds"
    and l: "length reds = 6"
    and d: "distinct (sel @ [c]) \<longrightarrow> distinct reds"
    and srt: "sorted reds"
    and old: "\<forall>x\<in>set reds - insert c (set sel). \<exists>i. x = 1 + int (stl g !! i mod 33)"
    using len by (simp_all add: fill_ok_def Inr p)
  have "c = 1 + int (g !! 0 mod 33)" using c by simp
  then have here: "\<exists>i. c = 1 + int (g !! i mod 33)" by blast
  have cand: "\<forall>x\<in>set reds - set sel. \<exists>i. x = 1 + int (g !! i mod 33)"
  proof
    fix x assume x: "x \<in> set reds - set sel"
    show "\<exists>i. x = 1 + int (g !! i mod 33)"
    proof (cases "x = c")
      case True
      with here show ?thesis by simp
    next
      case False
      with x old have "\<exists>i. x = 1 + int (stl g !! i mod 33)" by simp
      then show ?thesis by (rule candidate_shift)
    qed
  qed
  from l6 sub l d srt cand new show ?thesis
    by (simp add: fill_ok_def Inr p)
qed

lemma fill_reds_ok:
  assumes "fill_reds sel g = Some res"
  shows "fill_ok sel g res"
  using assms
proof (induct rule: fill_reds.raw_induct)
  case (1 f sel g res)
  show ?case
  proof (cases "length sel < 6")
    case False
    with 1(2) have "res = Inr (sel, g)" by simp
    with False show ?thesis by (simp add: fill_ok_def)
  next
    case True
    let ?c = "1 + int (shd g mod 33)"
    show ?thesis
    proof (cases "?c \<in> set sel")
      case True
      with \<open>length sel < 6\<close> 1(2) have a: "f sel (stl g) = Some res"
        by (simp add: py_randint_1_33)
      from 1(3) True \<open>length sel < 6\<close> have "fill_reds sel (stl g) = Some res"
        by (subst (asm) fill_reds_step) simp
      with a have "fill_ok sel (stl g) res" by (rule 1(1))
      then show ?thesis by (rule fill_ok_skip)
    next
      case False
      let ?sel' = "sort (take 6 (sel @ [?c]))"
      have take: "take 6 (sel @ [?c]) = sel @ [?c]"
        using \<open>length sel < 6\<close> by simp
      from False \<open>length sel < 6\<close> 1(2) have a: "f ?sel' (stl g) = Some res"
        by (simp add: py_randint_1_33)
      from 1(3) False \<open>length sel < 6\<close> have "fill_reds ?sel' (stl g) = Some res"
        by (subst (asm) fill_reds_step) simp
      with a have "fill_ok ?sel' (stl g) res" by (rule 1(1))
      then have ok: "fill_ok (sort (sel @ [?c])) (stl g) res" by (simp only: take)
      show ?thesis
        by (rule fill_ok_add [OF \<open>length sel < 6\<close> False refl ok])
    qed
  qed
qed (rule assms)

lemma upto_1_16: "[1..16::int] = [1,2,3,4,5,6,7,8,9,10,11,12,13,14,15,16]"
  by (simp add: upto.simps)

lemma py_uniform_zero: "py_uniform (1 / 10) 1 (0 ## g) = (1 / 10, g)"
  by (simp add: py_uniform_def py_random_def)

lemma red_weights_zeros:
  "red_weights [] nums (replicate (length nums) 0 @- s) = (replicate (length nums) (11 / 10), s)"
  by (induction nums) (simp_all add: py_uniform_zero get_or_def)

lemma red_weights_run:
  "red_weights [] all_reds (replicate 33 0 @- s) = (replicate 33 (11 / 10), s)"
  using red_weights_zeros [of all_reds s] by (simp add: all_reds_def)

lemma choices_picks_numeral:
  "choices_picks population cum tot (numeral n) g =
     (population ! bisect cum (fst (py_random g) * tot) (length population - 1)
        # fst (choices_picks population cum tot (pred_numeral n) (stl g)),
      sdrop (numeral n) g)"
  by (simp add: prod_eq_iff choices_picks_rng numeral_eq_Suc split_beta py_random_rng)

lemma choices_picks_Suc0:
  "choices_picks population cum tot (Suc 0) g =
     ([population ! bisect cum (fst (py_random g) * tot) (length population - 1)], stl g)"
  by (simp add: split_beta py_random_rng)

lemma choices_picks_1:
  "choices_picks population cum tot 1 g =
     ([population ! bisect cum (fst (py_random g) * tot) (length population - 1)], stl g)"
  by (simp add: split_beta py_random_rng)

lemma bisect_first:
  "x < c \<Longrightarrow> 0 < hi \<Longrightarrow> bisect (c # cum) x hi = 0"
  by (cases hi) (simp_all add: bisect_def)

lemma accumulate_33:
  "accumulate 0 (replicate 33 (11 / 10)) = 11 / 10 # accumulate (11 / 10) (replicate 32 (11 / 10))"
  by (simp add: numeral_eq_Suc)

lemma accumulate_replicate_last:
  "last (accumulate 0 (replicate 33 (11 / 10))) = 363 / 10"
  by (simp add: accumulate_last sum_list_replicate)

lemma red_choices_run:
  "py_choices all_reds (replicate 33 (11 / 10)) 6 (0 ## 0 ## 0 ## 0 ## 0 ## 0 ## s)
     = Inr ([1,1,1,1,1,1], s)"
  by (simp add: py_choices_def Let_def accumulate_length all_reds_def accumulate_eq_Nil
      accumulate_replicate_last choices_picks_numeral py_random_def sdrop_numeral)
     (simp add: accumulate_33 bisect_first upto_1_33)

lemma fill_run:
  "fill_reds [1] (siterate Suc 2) = Some (Inr ([1,3,4,5,6,7], siterate Suc 7))"
  by (simp add: fill_reds_step)

lemma blue_weights_empty: "blue_weights [] all_blues = replicate 16 1"
  by (simp add: blue_weights_def all_blues_def upto_1_16 get_or_def numeral_eq_Suc)

lemma blue_run:
  "py_choices all_blues (blue_weights [] all_blues) 1 (siterate Suc 7)
     = Inr ([1], siterate Suc 8)"
proof -
  have acc: "accumulate 0 (replicate 16 1) = 1 # accumulate 1 (replicate 15 1)"
    by (simp add: numeral_eq_Suc)
  have lst: "last (accumulate 0 (replicate 16 (1::rat))) = 16"
    by (simp add: accumulate_last sum_list_replicate)
  have "bisect (accumulate 0 (replicate 16 1)) (fst (py_random (siterate Suc 7)) * 16) 15 = 0"
    unfolding acc by (rule bisect_first) (simp_all add: py_random_def)
  then show ?thesis
    unfolding blue_weights_empty
    by (simp add: py_choices_def Let_def accumulate_length accumulate_eq_Nil
        lst all_blues_def upto_1_16 choices_picks_1 del: One_nat_def)
qed

lemma frequency_weighted_one_run:
  "frequency_weighted_one [] [] (replicate 39 0 @- siterate Suc 2)
     = Some (Inr (\<lparr>red = [1,3,4,5,6,7], blue = 1\<rparr>, siterate Suc 8))"
proof -
  have g: "replicate 39 (0::nat) @- siterate Suc 2
      = replicate 33 0 @- (0 ## 0 ## 0 ## 0 ## 0 ## 0 ## siterate Suc 2)"
    by (simp add: numeral_eq_Suc)
  show ?thesis
    unfolding g frequency_weighted_one_def
    by (simp add: red_weights_run red_choices_run fill_run blue_run item0_def
        del: One_nat_def)
qed

lemma all_reds_props: "length all_reds = 33" "set all_reds = {1..33}" "all_reds \<noteq> []"
  by (simp_all add: all_reds_def)

lemma all_blues_props: "length all_blues = 16" "set all_blues = {1..16}" "all_blues \<noteq> []"
  by (simp_all add: all_blues_def)

lemma all_reds_nth: "i < 33 \<Longrightarrow> all_reds ! i = 1 + int i"
  by (simp add: all_reds_def)

lemma all_blues_nth: "i < 16 \<Longrightarrow> all_blues ! i = 1 + int i"
  by (simp add: all_blues_def)

lemma frequency_weighted_one_parts:
  assumes "frequency_weighted_one red_freq blue_freq g = Some (Inr (r, g'))"
  obtains picks g3 where
    "py_choices all_reds (fst (red_weights red_freq all_reds g)) 6 (sdrop 33 g)
       = Inr (picks, sdrop 39 g)"
    "fill_reds (sort (take 6 (remdups picks))) (sdrop 39 g) = Some (Inr (red r, g3))"
    "py_choices all_blues (blue_weights blue_freq all_blues) 1 g3 = Inr ([blue r], g')"
proof -
  have rw: "red_weights red_freq all_reds g = (fst (red_weights red_freq all_reds g), sdrop 33 g)"
    by (simp add: prod_eq_iff red_weights_rng all_reds_props)
  from assms obtain picks g2 where
    ch: "py_choices all_reds (fst (red_weights red_freq all_reds g)) 6 (sdrop 33 g)
           = Inr (picks, g2)"
    by (subst (asm) frequency_weighted_one_def, subst (asm) rw) (auto split: sum.splits)
  have g2: "g2 = sdrop 39 g"
    using py_choices_Inr(3) [OF ch] by (simp add: sdrop_add)
  from assms ch obtain reds g3 where
    fill: "fill_reds (sort (take 6 (remdups picks))) g2 = Some (Inr (reds, g3))"
    by (subst (asm) frequency_weighted_one_def, subst (asm) rw)
       (auto split: sum.splits option.splits)
  from assms ch fill obtain bs where
    bl: "py_choices all_blues (blue_weights blue_freq all_blues) 1 g3 = Inr (bs, g')"
    and it: "item0 bs = Inr (blue r)" and red: "red r = reds"
    by (subst (asm) frequency_weighted_one_def, subst (asm) rw)
       (auto split: sum.splits option.splits)
  have "length bs = 1" using py_choices_Inr(1) [OF bl] .
  with it have "bs = [blue r]"
    by (cases bs) (simp_all add: item0_def)
  with ch fill bl g2 red that show thesis by simp
qed

text \<open>
  Claim C5, amended. Whenever the body of frequency-weighted returns a recommendation:
  the 33 red weights are \<open>freq(n)\<close>, 1 for a missing number, plus a jitter in
  \<open>[0.1, 1)\<close>, drawn from the first 33 draws; one call of \<open>choices\<close> on the next six
  draws picks six numbers with replacement; all of them are in the result, and every
  other red number of the result is a \<open>randint(1, 33)\<close> candidate read from the draws
  that follow (a top-up, no second weighted draw); the result has six distinct sorted
  numbers of the red domain; the blue number is the one pick of the \<open>choices\<close> call
  made on the generator as the top-up loop leaves it, with the weights \<open>freq(n)\<close>, 1
  for a missing number; that call consumes one draw, and the blue number lies in the
  blue domain.
\<close>

theorem frequency_weighted_structure:
  assumes "frequency_weighted_one red_freq blue_freq g = Some (Inr (r, g'))"
  shows "\<exists>rw picks g3.
      red_weights red_freq all_reds g = (rw, sdrop 33 g)
    \<and> length rw = 33
    \<and> (\<forall>i<33. \<exists>u. 1 / 10 \<le> u \<and> u < 1
           \<and> rw ! i = of_int (get_or red_freq (1 + int i) 1) + u)
    \<and> py_choices all_reds rw 6 (sdrop 33 g) = Inr (picks, sdrop 39 g)
    \<and> length picks = 6 \<and> set picks \<subseteq> set (red r)
    \<and> fill_reds (sort (take 6 (remdups picks))) (sdrop 39 g) = Some (Inr (red r, g3))
    \<and> (\<forall>x\<in>set (red r) - set picks. \<exists>i. x = 1 + int (sdrop 39 g !! i mod 33))
    \<and> valid_reds (red r)
    \<and> (\<forall>i<16. blue_weights blue_freq all_blues ! i = of_int (get_or blue_freq (1 + int i) 1))
    \<and> py_choices all_blues (blue_weights blue_freq all_blues) 1 g3 = Inr ([blue r], g')
    \<and> g' = stl g3
    \<and> blue r \<in> {1..16}"
proof -
  define rw where "rw = fst (red_weights red_freq all_reds g)"
  from assms obtain picks g3 where
    ch: "py_choices all_reds rw 6 (sdrop 33 g) = Inr (picks, sdrop 39 g)"
    and fill: "fill_reds (sort (take 6 (remdups picks))) (sdrop 39 g) = Some (Inr (red r, g3))"
    and bl: "py_choices all_blues (blue_weights blue_freq all_blues) 1 g3 = Inr ([blue r], g')"
    unfolding rw_def by (rule frequency_weighted_one_parts)
  have c1: "red_weights red_freq all_reds g = (rw, sdrop 33 g)"
    by (simp add: rw_def prod_eq_iff red_weights_rng all_reds_props)
  have c2: "length rw = 33"
    by (simp add: rw_def red_weights_length all_reds_props)
  have c3: "\<forall>i<33. \<exists>u. 1 / 10 \<le> u \<and> u < 1
           \<and> rw ! i = of_int (get_or red_freq (1 + int i) 1) + u"
  proof (intro allI impI)
    fix i :: nat assume i: "i < 33"
    then have "i < length all_reds" by (simp add: all_reds_props)
    from red_weights_nth [OF this, of red_freq g] i
    show "\<exists>u. 1 / 10 \<le> u \<and> u < 1 \<and> rw ! i = of_int (get_or red_freq (1 + int i) 1) + u"
      by (simp add: rw_def all_reds_nth)
  qed
  have len: "length picks = 6" and dom: "set picks \<subseteq> {1..33}"
    using py_choices_Inr(1,2) [OF ch] by (simp_all add: all_reds_props)
  let ?sel = "sort (take 6 (remdups picks))"
  have "length (remdups picks) \<le> 6"
    using length_remdups_leq [of picks] len by simp
  then have sel: "?sel = sort (remdups picks)" by simp
  have ok: "fill_ok ?sel (sdrop 39 g) (Inr (red r, g3))"
    using fill by (rule fill_reds_ok)
  have c5: "set picks \<subseteq> set (red r)"
    using ok by (simp add: fill_ok_def sel)
  have c6: "\<forall>x\<in>set (red r) - set picks. \<exists>i. x = 1 + int (sdrop 39 g !! i mod 33)"
    using ok by (simp add: fill_ok_def sel)
  have l6: "length (red r) = 6" and d: "distinct (red r)" and srt: "sorted (red r)"
    using ok \<open>length (remdups picks) \<le> 6\<close> by (simp_all add: fill_ok_def sel)
  have rng: "set (red r) \<subseteq> {1..33}"
  proof
    fix x assume x: "x \<in> set (red r)"
    show "x \<in> {1..33}"
    proof (cases "x \<in> set picks")
      case True
      with dom show ?thesis by blast
    next
      case False
      with x c6 obtain i where "x = 1 + int (sdrop 39 g !! i mod 33)" by blast
      then show ?thesis by simp
    qed
  qed
  have c7: "valid_reds (red r)"
    using l6 d srt rng by (simp add: valid_reds_def)
  have c8: "\<forall>i<16. blue_weights blue_freq all_blues ! i = of_int (get_or blue_freq (1 + int i) 1)"
    by (simp add: blue_weights_def all_blues_props all_blues_nth)
  have c10: "blue r \<in> {1..16}"
    using py_choices_Inr(2) [OF bl] by (simp add: all_blues_props)
  have c9: "g' = stl g3"
    using py_choices_Inr(3) [OF bl] by simp
  from c1 c2 c3 ch len c5 fill c6 c7 c8 bl c9 c10 show ?thesis by blast
qed

lemma zeros_then_count:
  "sdrop 33 (replicate 39 0 @- siterate Suc 2) = 0 ## 0 ## 0 ## 0 ## 0 ## 0 ## siterate Suc 2"
  "sdrop 45 (replicate 39 0 @- siterate Suc 2) = siterate Suc 8"
  "fst (red_weights [] all_reds (replicate 39 0 @- siterate Suc 2)) = replicate 33 (11 / 10)"
proof -
  have g: "replicate 39 (0::nat) @- siterate Suc 2
      = replicate 33 0 @- (0 ## 0 ## 0 ## 0 ## 0 ## 0 ## siterate Suc 2)"
    by (simp add: numeral_eq_Suc)
  show "sdrop 33 (replicate 39 0 @- siterate Suc 2) = 0 ## 0 ## 0 ## 0 ## 0 ## 0 ## siterate Suc 2"
    unfolding g by (simp add: sdrop_shift)
  show "sdrop 45 (replicate 39 0 @- siterate Suc 2) = siterate Suc 8"
    by (simp add: sdrop_shift)
  show "fst (red_weights [] all_reds (replicate 39 0 @- siterate Suc 2)) = replicate 33 (11 / 10)"
    unfolding g by (simp add: red_weights_run)
qed

lemma frequency_weighted_run:
  "frequency_weighted [] [] 1 (replicate 39 0 @- siterate Suc 2)
     = Some (Inr ([\<lparr>red = [1,3,4,5,6,7], blue = 1\<rparr>], siterate Suc 8))"
  using frequency_weighted_one_run by (simp add: frequency_weighted_def)

text \<open>
  Against claim C5 as stated: on the stream of 39 zeros followed by 2, 3, 4, ... and
  empty tables, the weighted draw returns the number 1 six times (it is drawn with
  replacement, and it is not six distinct numbers), no further weighted draw takes
  place, and the numbers 3, ..., 7 of the result are the \<open>randint\<close> candidates of the
  top-up; the call consumes 33 + 6 + 5 + 1 draws.
\<close>

theorem frequency_weighted_top_up_counterexample:
  "py_choices all_reds (fst (red_weights [] all_reds (replicate 39 0 @- siterate Suc 2))) 6
       (sdrop 33 (replicate 39 0 @- siterate Suc 2))
     = Inr ([1,1,1,1,1,1], siterate Suc 2)
   \<and> \<not> distinct [1,1,1,1,1,1 :: int]
   \<and> fill_reds (sort (take 6 (remdups [1,1,1,1,1,1]))) (siterate Suc 2)
     = Some (Inr ([1,3,4,5,6,7], siterate Suc 7))
   \<and> frequency_weighted [] [] 1 (replicate 39 0 @- siterate Suc 2)
     = Some (Inr ([\<lparr>red = [1,3,4,5,6,7], blue = 1\<rparr>], siterate Suc 8))
   \<and> siterate Suc 8 = sdrop (33 + 6 + 5 + 1) (replicate 39 0 @- siterate Suc 2)"
  using red_choices_run [of "siterate Suc 2"] fill_run frequency_weighted_run
  by (simp add: zeros_then_count)

theorem frequency_weighted_structure_witness:
  "frequency_weighted_one [] [] (replicate 39 0 @- siterate Suc 2)
     = Some (Inr (\<lparr>red = [1,3,4,5,6,7], blue = 1\<rparr>, siterate Suc 8))
   \<and> valid_reds [1,3,4,5,6,7]
   \<and> (\<exists>picks g3. py_choices all_reds
          (fst (red_weights [] all_reds (replicate 39 0 @- siterate Suc 2))) 6
          (sdrop 33 (replicate 39 0 @- siterate Suc 2))
        = Inr (picks, sdrop 39 (replicate 39 0 @- siterate Suc 2))
      \<and> set picks \<subseteq> set [1,3,4,5,6,7]
      \<and> fill_reds (sort (take 6 (remdups picks)))
            (sdrop 39 (replicate 39 0 @- siterate Suc 2))
          = Some (Inr ([1,3,4,5,6,7], g3))
      \<and> py_choices all_blues (blue_weights [] all_blues) 1 g3
          = Inr ([1], siterate Suc 8)
      \<and> siterate Suc 8 = stl g3)"
proof -
  from frequency_weighted_structure [OF frequency_weighted_one_run]
  obtain rw picks g3 where
    "red_weights [] all_reds (replicate 39 0 @- siterate Suc 2)
       = (rw, sdrop 33 (replicate 39 0 @- siterate Suc 2))"
    "py_choices all_reds rw 6 (sdrop 33 (replicate 39 0 @- siterate Suc 2))
       = Inr (picks, sdrop 39 (replicate 39 0 @- siterate Suc 2))"
    "set picks \<subseteq> set [1,3,4,5,6,7]" "valid_reds [1,3,4,5,6,7]"
    "fill_reds (sort (take 6 (remdups picks))) (sdrop 39 (replicate 39 0 @- siterate Suc 2))
       = Some (Inr ([1,3,4,5,6,7], g3))"
    "py_choices all_blues (blue_weights [] all_blues) 1 g3 = Inr ([1], siterate Suc 8)"
    "siterate Suc 8 = stl g3"
    by auto
  then show ?thesis
    using frequency_weighted_one_run by auto
qed

text \<open>
  The blue pick follows the weights. On one and the same stream, whose draw for the
  blue number is \<open>2\<^sup>5\<^sup>2\<close>, that is \<open>random() = 0.5\<close>, a blue table that gives the
  number 2 the count 100 makes the strategy return blue 2, and the empty blue table
  (every weight 1) makes it return blue 9.
\<close>

lemma zeros_39: "replicate 39 (0::nat) @- t = replicate 33 0 @- (0 ## 0 ## 0 ## 0 ## 0 ## 0 ## t)"
  by (simp add: numeral_eq_Suc)

lemma fill_run_explicit:
  "fill_reds [1] (2 ## 3 ## 4 ## 5 ## 6 ## s) = Some (Inr ([1,3,4,5,6,7], s))"
  by (simp add: fill_reds_step)

lemma py_random_half: "py_random (4503599627370496 ## s) = (1 / 2, s)"
  by (simp add: py_random_def)

lemma blue_weighted_pick:
  "py_choices all_blues (blue_weights [(2, 100)] all_blues) 1 (4503599627370496 ## s)
     = Inr ([2], s)"
  by (simp add: py_choices_def Let_def blue_weights_def all_blues_def upto_1_16 get_or_def
      choices_picks_1 py_random_half bisect_def del: One_nat_def)

lemma blue_uniform_pick:
  "py_choices all_blues (blue_weights [] all_blues) 1 (4503599627370496 ## s) = Inr ([9], s)"
  by (simp add: py_choices_def Let_def blue_weights_def all_blues_def upto_1_16 get_or_def
      choices_picks_1 py_random_half bisect_def del: One_nat_def)

lemma frequency_weighted_blue_follows_weights:
  "frequency_weighted_one [] [(2, 100)]
       (replicate 39 0 @- (2 ## 3 ## 4 ## 5 ## 6 ## 4503599627370496 ## s))
     = Some (Inr (\<lparr>red = [1,3,4,5,6,7], blue = 2\<rparr>, s))
   \<and> frequency_weighted_one [] []
       (replicate 39 0 @- (2 ## 3 ## 4 ## 5 ## 6 ## 4503599627370496 ## s))
     = Some (Inr (\<lparr>red = [1,3,4,5,6,7], blue = 9\<rparr>, s))"
  unfolding zeros_39 frequency_weighted_one_def
  by (simp add: red_weights_run red_choices_run fill_run_explicit blue_weighted_pick
      blue_uniform_pick item0_def del: One_nat_def)

section \<open>The strategies that keep the shape of a recommendation\<close>

lemma for_range_no_raise:
  assumes "\<And>g e. body g \<noteq> Some (Inl e)"
  shows "for_range n body recs g \<noteq> Some (Inl e)"
proof (induction n arbitrary: recs g)
  case 0
  then show ?case by simp
next
  case (Suc n)
  then show ?case
    using assms by (auto split: option.splits sum.splits)
qed

lemma py_choice_pair:
  "py_choice [a, b] g = Inr (c, g') \<Longrightarrow> c = a \<or> c = b"
  by (auto simp: py_choice_def randbelow_def nth_Cons' split: if_splits)

lemma py_choice_single: "py_choice [b] g = Inr (b, stl g)"
  by (simp add: py_choice_def randbelow_def)

lemma py_randint_range:
  "a \<le> b \<Longrightarrow> \<exists>c. py_randint a b g = Inr (c, stl g) \<and> a \<le> c \<and> c \<le> b"
proof -
  assume ab: "a \<le> b"
  then have "0 < nat (b - a + 1)" by simp
  then have "shd g mod nat (b - a + 1) < nat (b - a + 1)" by simp
  then have "int (shd g mod nat (b - a + 1)) < b - a + 1" by linarith
  with ab show ?thesis by (simp add: py_randint_def randbelow_def)
qed

lemma pure_random_one_valid:
  assumes "pure_random_one g = Some (Inr (r, g'))"
  shows "valid_recommendation r"
proof -
  obtain s where s: "py_sample [1..33] 6 g = Inr (s, sdrop 6 g)"
    using py_sample_33_6 by blast
  obtain b where b: "py_randint 1 16 (sdrop 6 g) = Inr (b, stl (sdrop 6 g))" "1 \<le> b" "b \<le> 16"
    using py_randint_range [of 1 16 "sdrop 6 g"] by auto
  from assms s b have "r = \<lparr>red = sort s, blue = b\<rparr>"
    by (simp add: pure_random_one_def)
  with sample6_valid [OF s] b show ?thesis by (simp add: valid_recommendation_def)
qed

lemma sum_optimized_one_valid:
  assumes "sum_optimized_one g = Some (Inr (r, g'))"
  shows "valid_recommendation r"
proof -
  have "valid_reds (red r)" using sum_optimized_one_Inr [OF assms] by simp
  moreover have "blue r \<in> {1..16}"
    using assms
    by (auto simp: sum_optimized_one_def py_randint_1_16 split: option.splits sum.splits)
  ultimately show ?thesis by (simp add: valid_recommendation_def)
qed

lemma no_consecutive_one_valid:
  assumes "no_consecutive_one g = Some (Inr (r, g'))"
  shows "valid_recommendation r"
proof -
  have "valid_reds (red r)" using no_consecutive_one_Inr [OF assms] by simp
  moreover have "blue r \<in> {1..16}"
    using assms
    by (auto simp: no_consecutive_one_def py_randint_1_16 split: option.splits sum.splits)
  ultimately show ?thesis by (simp add: valid_recommendation_def)
qed

lemma py_sample_ok:
  "k \<le> length pool \<Longrightarrow> \<exists>s. py_sample pool k g = Inr (s, sdrop k g)"
  by (simp add: py_sample_def prod_eq_iff sample_pool_rng)

lemma interval_distribution_one_valid:
  assumes "interval_distribution_one g = Some (Inr (r, g'))"
  shows "valid_recommendation r"
proof -
  obtain i1 where i1: "py_sample [1..11] 2 g = Inr (i1, sdrop 2 g)"
    using py_sample_ok [of 2 "[1..11]" g] by auto
  obtain i2 where i2: "py_sample [12..22] 2 (sdrop 2 g) = Inr (i2, sdrop 2 (sdrop 2 g))"
    using py_sample_ok [of 2 "[12..22]" "sdrop 2 g"] by auto
  obtain i3 where i3: "py_sample [23..33] 2 (sdrop 2 (sdrop 2 g))
      = Inr (i3, sdrop 2 (sdrop 2 (sdrop 2 g)))"
    using py_sample_ok [of 2 "[23..33]" "sdrop 2 (sdrop 2 g)"] by auto
  let ?g3 = "sdrop 2 (sdrop 2 (sdrop 2 g))"
  obtain low where low: "py_randint 1 8 ?g3 = Inr (low, stl ?g3)" "1 \<le> low" "low \<le> 8"
    using py_randint_range [of 1 8 ?g3] by auto
  obtain high where high: "py_randint 9 16 (stl ?g3) = Inr (high, stl (stl ?g3))"
    "9 \<le> high" "high \<le> 16"
    using py_randint_range [of 9 16 "stl ?g3"] by auto
  from assms i1 i2 i3 low(1) high(1) obtain b where
    b: "py_choice [low, high] (stl (stl ?g3)) = Inr (b, g')"
    and r: "r = \<lparr>red = sort (i1 @ i2 @ i3), blue = b\<rparr>"
    by (auto simp: interval_distribution_one_def split: sum.splits)
  have p1: "length i1 = 2" "set i1 \<subseteq> {1..11}" "distinct i1"
    using py_sample_Inr(1) [OF i1] py_sample_Inr(3) [OF i1]
      py_sample_Inr(4) [OF i1 distinct_upto]
    by (simp_all only: set_upto)
  have p2: "length i2 = 2" "set i2 \<subseteq> {12..22}" "distinct i2"
    using py_sample_Inr(1) [OF i2] py_sample_Inr(3) [OF i2]
      py_sample_Inr(4) [OF i2 distinct_upto]
    by (simp_all only: set_upto)
  have p3: "length i3 = 2" "set i3 \<subseteq> {23..33}" "distinct i3"
    using py_sample_Inr(1) [OF i3] py_sample_Inr(3) [OF i3]
      py_sample_Inr(4) [OF i3 distinct_upto]
    by (simp_all only: set_upto)
  have "{1..11::int} \<inter> {12..22} = {}" "{1..11::int} \<inter> {23..33} = {}"
    "{12..22::int} \<inter> {23..33} = {}"
    by auto
  then have "set i1 \<inter> set i2 = {}" "set i1 \<inter> set i3 = {}" "set i2 \<inter> set i3 = {}"
    using p1(2) p2(2) p3(2) by blast+
  then have "distinct (i1 @ i2 @ i3)"
    using p1(3) p2(3) p3(3) by auto
  moreover have "{1..11::int} \<subseteq> {1..33}" "{12..22::int} \<subseteq> {1..33}"
    "{23..33::int} \<subseteq> {1..33}"
    by auto
  then have "set (i1 @ i2 @ i3) \<subseteq> {1..33}"
    using p1(2) p2(2) p3(2) by (simp only: set_append) blast
  ultimately have "valid_reds (sort (i1 @ i2 @ i3))"
    using p1 p2 p3 by (simp add: valid_reds_def)
  moreover have "b \<in> {1..16}"
    using py_choice_pair [OF b] low high by auto
  ultimately show ?thesis by (simp add: r valid_recommendation_def)
qed

lemma odd_even_pools:
  "3 \<le> length (filter (\<lambda>x. x mod 2 = 1) [1..33::int])"
  "3 \<le> length (filter (\<lambda>x. x mod 2 = 0) [1..33::int])"
  by (simp_all add: upto_1_33)

lemma odd_even_balance_one_valid:
  assumes "odd_even_balance_one g = Some (Inr (r, g'))"
  shows "valid_recommendation r"
proof -
  let ?odd = "filter (\<lambda>x. x mod 2 = 1) [1..33::int]"
  let ?even = "filter (\<lambda>x. x mod 2 = 0) [1..33::int]"
  obtain odds where o: "py_sample ?odd 3 g = Inr (odds, sdrop 3 g)"
    using py_sample_ok [OF odd_even_pools(1), of g] by auto
  obtain evens where e: "py_sample ?even 3 (sdrop 3 g) = Inr (evens, sdrop 3 (sdrop 3 g))"
    using py_sample_ok [OF odd_even_pools(2), of "sdrop 3 g"] by auto
  let ?g2 = "sdrop 3 (sdrop 3 g)"
  obtain b where b: "py_randint 1 16 ?g2 = Inr (b, stl ?g2)" "1 \<le> b" "b \<le> 16"
    using py_randint_range [of 1 16 ?g2] by auto
  from assms o e b(1) have r: "r = \<lparr>red = sort (odds @ evens), blue = b\<rparr>"
    by (simp add: odd_even_balance_one_def py_choice_single)
  have po: "length odds = 3" "set odds \<subseteq> set ?odd" "distinct odds"
    using py_sample_Inr [OF o] by simp_all
  have pe: "length evens = 3" "set evens \<subseteq> set ?even" "distinct evens"
    using py_sample_Inr [OF e] by simp_all
  have "distinct (odds @ evens)"
    using po pe by (auto simp: subset_iff)
  moreover have "set (odds @ evens) \<subseteq> {1..33}"
    using po pe by (auto simp: subset_iff)
  ultimately have "valid_reds (sort (odds @ evens))"
    using po pe by (simp add: valid_reds_def)
  with b show ?thesis by (simp add: r valid_recommendation_def)
qed

lemma frequency_weighted_one_valid:
  assumes "frequency_weighted_one red_freq blue_freq g = Some (Inr (r, g'))"
  shows "valid_recommendation r"
proof -
  from assms obtain picks g3 where
    ch: "py_choices all_reds (fst (red_weights red_freq all_reds g)) 6 (sdrop 33 g)
           = Inr (picks, sdrop 39 g)"
    and fill: "fill_reds (sort (take 6 (remdups picks))) (sdrop 39 g) = Some (Inr (red r, g3))"
    and bl: "py_choices all_blues (blue_weights blue_freq all_blues) 1 g3 = Inr ([blue r], g')"
    by (rule frequency_weighted_one_parts)
  have len: "length picks = 6" and dom: "set picks \<subseteq> {1..33}"
    using py_choices_Inr(1,2) [OF ch] by (simp_all add: all_reds_props)
  have short: "length (remdups picks) \<le> 6"
    using length_remdups_leq [of picks] len by simp
  then have sel: "sort (take 6 (remdups picks)) = sort (remdups picks)" by simp
  have ok: "fill_ok (sort (take 6 (remdups picks))) (sdrop 39 g) (Inr (red r, g3))"
    using fill by (rule fill_reds_ok)
  have new: "\<forall>x\<in>set (red r) - set picks. \<exists>i. x = 1 + int (sdrop 39 g !! i mod 33)"
    using ok by (simp add: fill_ok_def sel)
  have shape: "length (red r) = 6" "distinct (red r)" "sorted (red r)"
    using ok short by (simp_all add: fill_ok_def sel)
  have "set (red r) \<subseteq> {1..33}"
  proof
    fix x assume x: "x \<in> set (red r)"
    show "x \<in> {1..33}"
    proof (cases "x \<in> set picks")
      case True
      with dom show ?thesis by blast
    next
      case False
      with x new obtain i where "x = 1 + int (sdrop 39 g !! i mod 33)" by blast
      then show ?thesis by simp
    qed
  qed
  with shape have "valid_reds (red r)" by (simp add: valid_reds_def)
  moreover have "blue r \<in> {1..16}"
    using py_choices_Inr(2) [OF bl] by (simp add: all_blues_props)
  ultimately show ?thesis by (simp add: valid_recommendation_def)
qed

text \<open>
  Every strategy but pure-frequency and hot-cold-balance (so also the fallback of the
  dispatch) returns, when it returns, exactly \<open>count\<close> recommendations of the data model,
  for all tables and every random stream.
\<close>

lemma strategies_keep_shape:
  assumes "algorithm \<notin> {Member PURE_FREQUENCY, Member HOT_COLD_BALANCE}"
    and "generate algorithm red_freq blue_freq cnt g = Some (Inr (recs, g'))"
  shows "length recs = cnt \<and> (\<forall>r\<in>set recs. valid_recommendation r)"
proof -
  have inv: "length recs = cnt \<and> (\<forall>r\<in>set recs. valid_recommendation r)"
    if "for_range cnt body [] g = Some (Inr (recs, g'))"
      and "\<And>g r g'. body g = Some (Inr (r, g')) \<Longrightarrow> valid_recommendation r" for body
    using for_range_inv [where P = valid_recommendation, OF that(2) that(1)] by simp
  have fw: ?thesis if "frequency_weighted red_freq blue_freq cnt g = Some (Inr (recs, g'))"
    using that by (intro inv [of "frequency_weighted_one red_freq blue_freq"])
      (simp_all add: frequency_weighted_def frequency_weighted_one_valid)
  have pr: ?thesis if "pure_random cnt g = Some (Inr (recs, g'))"
    using that by (intro inv [of pure_random_one])
      (simp_all add: pure_random_def pure_random_one_valid)
  have itv: ?thesis if "interval_distribution red_freq blue_freq cnt g = Some (Inr (recs, g'))"
    using that by (intro inv [of interval_distribution_one])
      (simp_all add: interval_distribution_def interval_distribution_one_valid)
  have oe: ?thesis if "odd_even_balance red_freq blue_freq cnt g = Some (Inr (recs, g'))"
    using that by (intro inv [of odd_even_balance_one])
      (simp_all add: odd_even_balance_def odd_even_balance_one_valid)
  have so: ?thesis if "sum_optimized red_freq blue_freq cnt g = Some (Inr (recs, g'))"
    using that by (intro inv [of sum_optimized_one])
      (simp_all add: sum_optimized_def sum_optimized_one_valid)
  have nc: ?thesis if "no_consecutive red_freq blue_freq cnt g = Some (Inr (recs, g'))"
    using that by (intro inv [of no_consecutive_one])
      (simp_all add: no_consecutive_def no_consecutive_one_valid)
  from assms show ?thesis
    unfolding generate_def
    by (simp split: if_splits) (use fw pr itv oe so nc in blast)+
qed

lemma sum_list_pos_rat:
  fixes ws :: "rat list"
  shows "ws \<noteq> [] \<Longrightarrow> \<forall>w\<in>set ws. 0 < w \<Longrightarrow> 0 < sum_list ws"
proof (induction ws)
  case Nil
  then show ?case by simp
next
  case (Cons w ws)
  show ?case
  proof (cases "ws = []")
    case True
    with Cons.prems show ?thesis by simp
  next
    case False
    with Cons have "0 < sum_list ws" by simp
    with Cons.prems show ?thesis by simp
  qed
qed

lemma red_weights_positive:
  assumes "\<forall>n\<in>set nums. 0 \<le> get_or red_freq n 1"
  shows "\<forall>w\<in>set (fst (red_weights red_freq nums g)). 0 < w"
proof
  fix w assume "w \<in> set (fst (red_weights red_freq nums g))"
  then obtain i where i: "i < length nums" and w: "w = fst (red_weights red_freq nums g) ! i"
    by (auto simp: in_set_conv_nth red_weights_length)
  from red_weights_nth [OF i, of red_freq g] obtain u where
    u: "1 / 10 \<le> u" "fst (red_weights red_freq nums g) ! i = of_int (get_or red_freq (nums ! i) 1) + u"
    by blast
  have "0 \<le> get_or red_freq (nums ! i) 1" using assms i by simp
  then have "(0::rat) \<le> of_int (get_or red_freq (nums ! i) 1)" by simp
  with u w show "0 < w" by simp
qed

lemma fill_reds_no_raise: "fill_reds sel g \<noteq> Some (Inl e)"
proof
  assume "fill_reds sel g = Some (Inl e)"
  then have "fill_ok sel g (Inl e)" by (rule fill_reds_ok)
  then show False by (simp add: fill_ok_def)
qed

lemma frequency_weighted_one_no_raise:
  assumes red: "\<forall>n\<in>set all_reds. 0 \<le> get_or red_freq n 1"
    and blue: "0 < sum_list (blue_weights blue_freq all_blues)"
  shows "frequency_weighted_one red_freq blue_freq g \<noteq> Some (Inl e)"
proof -
  let ?rw = "fst (red_weights red_freq all_reds g)"
  have rw: "red_weights red_freq all_reds g = (?rw, sdrop 33 g)"
    by (simp add: prod_eq_iff red_weights_rng all_reds_props)
  have "?rw \<noteq> []"
    using red_weights_length [of red_freq all_reds g] all_reds_props by auto
  then have "0 < sum_list ?rw"
    using red_weights_positive [OF red, of g] by (rule sum_list_pos_rat)
  then obtain picks where
    ch: "py_choices all_reds ?rw 6 (sdrop 33 g) = Inr (picks, sdrop 6 (sdrop 33 g))"
    using py_choices_positive [of ?rw all_reds 6 "sdrop 33 g"]
    by (auto simp: red_weights_length all_reds_props)
  have bl: "\<exists>bs. py_choices all_blues (blue_weights blue_freq all_blues) 1 g3 = Inr (bs, sdrop 1 g3)
      \<and> length bs = 1" for g3
  proof -
    obtain bs where b: "py_choices all_blues (blue_weights blue_freq all_blues) 1 g3
        = Inr (bs, sdrop 1 g3)"
      using py_choices_positive [OF _ all_blues_props(3) blue, of 1 g3]
      by (auto simp: blue_weights_def)
    with py_choices_Inr(1) [OF b] show ?thesis by blast
  qed
  show ?thesis
  proof (cases "fill_reds (sort (take 6 (remdups picks))) (sdrop 6 (sdrop 33 g))")
    case None
    then show ?thesis
      unfolding frequency_weighted_one_def by (subst rw) (simp add: ch)
  next
    case (Some res)
    with fill_reds_no_raise obtain reds g3 where res: "res = Inr (reds, g3)"
      by (cases res) auto
    from bl [of g3] obtain b where
      "py_choices all_blues (blue_weights blue_freq all_blues) 1 g3 = Inr ([b], sdrop 1 g3)"
      by (auto simp: length_Suc_conv)
    with Some res show ?thesis
      unfolding frequency_weighted_one_def by (subst rw) (simp add: ch item0_def)
  qed
qed

lemma blue_weights_empty_sum: "sum_list (blue_weights [] all_blues) = 16"
  by (simp add: blue_weights_empty sum_list_replicate)

lemma frequency_weighted_empty_no_raise: "frequency_weighted_one [] [] g \<noteq> Some (Inl e)"
  by (rule frequency_weighted_one_no_raise) (simp_all add: get_or_def blue_weights_empty_sum)

lemma pure_random_one_no_raise: "pure_random_one g \<noteq> Some (Inl e)"
proof -
  obtain s where s: "py_sample [1..33] 6 g = Inr (s, sdrop 6 g)"
    using py_sample_33_6 by blast
  obtain b where "py_randint 1 16 (sdrop 6 g) = Inr (b, stl (sdrop 6 g))"
    using py_randint_range [of 1 16 "sdrop 6 g"] by auto
  with s show ?thesis by (simp add: pure_random_one_def)
qed

lemma interval_distribution_one_no_raise: "interval_distribution_one g \<noteq> Some (Inl e)"
proof -
  obtain i1 where i1: "py_sample [1..11] 2 g = Inr (i1, sdrop 2 g)"
    using py_sample_ok [of 2 "[1..11]" g] by auto
  obtain i2 where i2: "py_sample [12..22] 2 (sdrop 2 g) = Inr (i2, sdrop 2 (sdrop 2 g))"
    using py_sample_ok [of 2 "[12..22]" "sdrop 2 g"] by auto
  obtain i3 where i3: "py_sample [23..33] 2 (sdrop 2 (sdrop 2 g))
      = Inr (i3, sdrop 2 (sdrop 2 (sdrop 2 g)))"
    using py_sample_ok [of 2 "[23..33]" "sdrop 2 (sdrop 2 g)"] by auto
  let ?g3 = "sdrop 2 (sdrop 2 (sdrop 2 g))"
  obtain low where low: "py_randint 1 8 ?g3 = Inr (low, stl ?g3)"
    using py_randint_range [of 1 8 ?g3] by auto
  obtain high where high: "py_randint 9 16 (stl ?g3) = Inr (high, stl (stl ?g3))"
    using py_randint_range [of 9 16 "stl ?g3"] by auto
  from i1 i2 i3 low high show ?thesis
    by (simp add: interval_distribution_one_def py_choice_def randbelow_def)
qed

lemma odd_even_balance_one_no_raise: "odd_even_balance_one g \<noteq> Some (Inl e)"
proof -
  obtain odds where o: "py_sample (filter (\<lambda>x. x mod 2 = 1) [1..33]) 3 g = Inr (odds, sdrop 3 g)"
    using py_sample_ok [OF odd_even_pools(1), of g] by auto
  obtain evens where e: "py_sample (filter (\<lambda>x. x mod 2 = 0) [1..33]) 3 (sdrop 3 g)
      = Inr (evens, sdrop 3 (sdrop 3 g))"
    using py_sample_ok [OF odd_even_pools(2), of "sdrop 3 g"] by auto
  obtain b where "py_randint 1 16 (sdrop 3 (sdrop 3 g)) = Inr (b, stl (sdrop 3 (sdrop 3 g)))"
    using py_randint_range [of 1 16 "sdrop 3 (sdrop 3 g)"] by auto
  with o e show ?thesis
    by (simp add: odd_even_balance_one_def py_choice_single)
qed

lemma sum_optimized_one_no_raise: "sum_optimized_one g \<noteq> Some (Inl e)"
proof (cases "sum_optimized_reds g")
  case None
  then show ?thesis by (simp add: sum_optimized_one_def)
next
  case (Some res)
  with sum_optimized_reds_sum [OF Some] show ?thesis
    by (auto simp: sum_optimized_one_def py_randint_1_16 split: sum.splits)
qed

lemma no_consecutive_one_no_raise: "no_consecutive_one g \<noteq> Some (Inl e)"
proof (cases "no_consecutive_reds g")
  case None
  then show ?thesis by (simp add: no_consecutive_one_def)
next
  case (Some res)
  with no_consecutive_reds_ok [OF Some] show ?thesis
    by (auto simp: no_consecutive_one_def py_randint_1_16 split: sum.splits)
qed

text \<open>
  On empty tables none of these strategies raises: frequency-weighted takes the weight 1
  for every number of both domains.
\<close>

lemma empty_tables_no_raise:
  assumes "algorithm \<notin> {Member PURE_FREQUENCY, Member HOT_COLD_BALANCE}"
  shows "generate algorithm [] [] cnt g \<noteq> Some (Inl e)"
  using assms
  by (simp add: generate_def frequency_weighted_def pure_random_def interval_distribution_def
      odd_even_balance_def sum_optimized_def no_consecutive_def for_range_no_raise
      frequency_weighted_empty_no_raise pure_random_one_no_raise
      interval_distribution_one_no_raise odd_even_balance_one_no_raise
      sum_optimized_one_no_raise no_consecutive_one_no_raise)

lemma sconst_0_unfold: "0 ## sconst 0 = sconst (0::nat)"
  by (subst (2) siterate.ctr) simp

lemma fill_reds_stalls: "fill_reds [1] (sconst 0) = None"
proof (cases "fill_reds [1] (sconst 0)")
  case None
  then show ?thesis .
next
  case (Some res0)
  define P where "P = (\<lambda>(sel :: int list) (g :: rng) (res :: py_error + (int list \<times> rng)).
      \<not> (sel = [1] \<and> g = sconst 0))"
  have "P [1] (sconst 0) res0"
    using Some
  proof (induct rule: fill_reds.raw_induct)
    case (1 f sel g res)
    show ?case
      unfolding P_def
    proof
      assume h: "sel = [1] \<and> g = sconst 0"
      with 1(2) have a: "f [1] (sconst 0) = Some res"
        by (simp add: py_randint_1_33)
      from h have "sel = [1]" "g = sconst 0" by blast+
      with 1(3) have b: "fill_reds [1] (sconst 0) = Some res" by simp
      from 1(1) [OF a b] show False
        by (simp add: P_def)
    qed
  qed (rule Some)
  then show ?thesis by (simp add: P_def)
qed

text \<open>
  The top-up loop of frequency-weighted has no bound either: on the stream of draws that
  are all 0 the weighted draw gives 1 six times and every candidate is 1 again.
\<close>

lemma frequency_weighted_stalls: "frequency_weighted [] [] 1 (sconst 0) = None"
proof -
  have rw: "red_weights [] all_reds (sconst 0) = (replicate 33 (11 / 10), sconst 0)"
    using red_weights_run [of "sconst 0"] by simp
  have ch: "py_choices all_reds (replicate 33 (11 / 10)) 6 (sconst 0)
      = Inr ([1,1,1,1,1,1], sconst 0)"
    using red_choices_run [of "sconst 0"] by (simp add: sconst_0_unfold)
  have "fill_reds [1] (sconst 0) = None"
    by (rule fill_reds_stalls)
  then have "frequency_weighted_one [] [] (sconst 0) = None"
    by (simp add: frequency_weighted_one_def rw ch)
  then show ?thesis
    by (simp add: frequency_weighted_def)
qed

section \<open>Every behaviour of the random module is a stream\<close>

text \<open>
  The model of \<open>sample\<close> reaches every selection the library can make: any list of
  pairwise different elements of a population without repetitions is the sample of some
  stream; and \<open>randint\<close> reaches every number of its range.
\<close>

lemma sample_pool_complete:
  "distinct pool \<Longrightarrow> distinct ys \<Longrightarrow> set ys \<subseteq> set pool
     \<Longrightarrow> \<exists>g. sample_pool pool (length ys) g = (ys, g')"
proof (induction ys arbitrary: pool)
  case Nil
  then show ?case by simp
next
  case (Cons y ys)
  from Cons.prems(3) have "y \<in> set pool" by simp
  then obtain j where j: "j < length pool" "pool ! j = y"
    by (auto simp: in_set_conv_nth)
  define rest where "rest = take j pool @ drop (Suc j) pool"
  have pool: "pool = take j pool @ y # drop (Suc j) pool"
    using id_take_nth_drop [OF j(1)] unfolding j(2) .
  then have "distinct (take j pool @ y # drop (Suc j) pool)"
    using Cons.prems(1) by simp
  then have d: "distinct rest" and notin: "y \<notin> set rest"
    by (auto simp: rest_def)
  have "set pool = insert y (set rest)"
    by (subst pool) (auto simp: rest_def)
  with Cons.prems(2,3) have sub: "set ys \<subseteq> set rest" by auto
  from Cons.prems(2) have "distinct ys" by simp
  from Cons.IH [OF d this sub] obtain g where g: "sample_pool rest (length ys) g = (ys, g')"
    by blast
  have "sample_pool pool (length (y # ys)) (j ## g) = (y # ys, g')"
    using j g by (simp add: randbelow_def rest_def)
  then show ?case by blast
qed

lemma py_randint_complete:
  "a \<le> c \<Longrightarrow> c \<le> b \<Longrightarrow> py_randint a b (nat (c - a) ## g') = Inr (c, g')"
  by (simp add: py_randint_def randbelow_def)


end
